theory Spec2Isabelle
  imports Main "HOL-Library.Word" "HOL-Library.Sublist"
begin

section \<open>JavaScript strings\<close>

text \<open>
  A JavaScript string is a sequence of 16-bit code units. The regular expression of
  \<^verbatim>\<open>print-fillers.js\<close> has no \<^verbatim>\<open>u\<close> flag, so it works on code units, and so do
  \<^verbatim>\<open>slice\<close> and \<^verbatim>\<open>length\<close>.
\<close>

type_synonym jschar = "16 word"
type_synonym jsstring = "jschar list"

definition js :: "string \<Rightarrow> jsstring" where
  \<comment> \<open>An ASCII literal of the source as code units.\<close>
  "js s = map of_char s"

definition COLON :: jschar where
  "COLON = 0x3A"

definition UNDERSCORE :: jschar where
  "UNDERSCORE = 0x5F"

definition isWhiteSpace :: "jschar \<Rightarrow> bool" where
  \<comment> \<open>The class \<^verbatim>\<open>\s\<close>, which is also what \<^verbatim>\<open>trim\<close> strips: WhiteSpace and
    LineTerminator of ECMAScript (TAB, LF, VT, FF, CR, SP, NBSP, U+1680, U+2000..U+200A,
    U+2028, U+2029, U+202F, U+205F, U+3000, U+FEFF).\<close>
  "isWhiteSpace c \<longleftrightarrow>
     c = 0x9 \<or> c = 0xA \<or> c = 0xB \<or> c = 0xC \<or> c = 0xD \<or> c = 0x20 \<or> c = 0xA0 \<or>
     c = 0x1680 \<or> (0x2000 \<le> c \<and> c \<le> 0x200A) \<or> c = 0x2028 \<or> c = 0x2029 \<or>
     c = 0x202F \<or> c = 0x205F \<or> c = 0x3000 \<or> c = 0xFEFF"

definition trim :: "jsstring \<Rightarrow> jsstring" where
  "trim s = rev (dropWhile isWhiteSpace (rev (dropWhile isWhiteSpace s)))"

definition slice :: "jsstring \<Rightarrow> nat \<Rightarrow> nat \<Rightarrow> jsstring" where
  \<comment> \<open>\<^verbatim>\<open>text.slice(a, b)\<close> for indices within the string; empty when \<open>b \<le> a\<close>.\<close>
  "slice s a b = take (b - a) (drop a s)"

definition slice_from :: "jsstring \<Rightarrow> nat \<Rightarrow> jsstring" where
  \<comment> \<open>\<^verbatim>\<open>text.slice(a)\<close>.\<close>
  "slice_from s a = drop a s"

fun String_nat :: "nat \<Rightarrow> jsstring" where
  \<comment> \<open>\<^verbatim>\<open>String(n)\<close> and \<^verbatim>\<open>n + ''\<close> for a non-negative integer: its decimal digits.\<close>
  "String_nat n =
     (if n < 10 then [of_nat (48 + n)]
      else String_nat (n div 10) @ [of_nat (48 + n mod 10)])"

declare String_nat.simps [simp del]

section \<open>The pattern\<close>

text \<open>
  \<^verbatim>\<open>const PATTERN = /:(\s*)(_{5,})/g\<close>

  An attempt at one position reads a colon, then the greedy \<^verbatim>\<open>\s*\<close>, then the greedy
  \<^verbatim>\<open>_{5,}\<close>. Backtracking cannot help: giving back white space leaves a white-space
  character where an underscore is needed, and nothing follows the underscores. So the
  attempt succeeds exactly when the longest white-space run after the colon is followed
  by a run of at least five underscores, and the groups are those two longest runs.

  \<^verbatim>\<open>PATTERN\<close> is one object for all calls. Every use of it sets \<^verbatim>\<open>lastIndex\<close> to 0 first,
  so no call depends on the \<^verbatim>\<open>lastIndex\<close> an earlier one left; the loop of
  \<^verbatim>\<open>replaceInTextNode\<close> carries it from one \<^verbatim>\<open>exec\<close> to the next.
\<close>

record regmatch =
  m_index :: nat
  m_1 :: jsstring
  m_2 :: jsstring

definition match_here :: "jsstring \<Rightarrow> (jsstring \<times> jsstring) option" where
  "match_here s =
     (case s of
        [] \<Rightarrow> None
      | c # r \<Rightarrow>
          if c = COLON then
            (let spaces = takeWhile isWhiteSpace r;
                 underscores = takeWhile (\<lambda>x. x = UNDERSCORE) (dropWhile isWhiteSpace r)
             in if 5 \<le> length underscores then Some (spaces, underscores) else None)
          else None)"

fun search :: "jsstring \<Rightarrow> nat \<Rightarrow> regmatch option" where
  \<comment> \<open>The leftmost position, from index \<open>i\<close> on, where an attempt succeeds; the first
    argument is the text from index \<open>i\<close>.\<close>
  "search [] i = None"
| "search (c # r) i =
     (case match_here (c # r) of
        Some (spaces, underscores) \<Rightarrow>
          Some \<lparr>m_index = i, m_1 = spaces, m_2 = underscores\<rparr>
      | None \<Rightarrow> search r (Suc i))"

definition exec :: "jsstring \<Rightarrow> nat \<Rightarrow> (regmatch \<times> nat) option" where
  \<comment> \<open>\<^verbatim>\<open>PATTERN.exec(text)\<close> with \<^verbatim>\<open>PATTERN.lastIndex\<close> given: the match and the new
    \<^verbatim>\<open>lastIndex\<close> (the end of the match), or \<open>None\<close> for \<^verbatim>\<open>null\<close>, which resets
    \<^verbatim>\<open>lastIndex\<close> to 0.\<close>
  "exec text lastIndex =
     (if length text < lastIndex then None
      else case search (drop lastIndex text) lastIndex of
             None \<Rightarrow> None
           | Some m \<Rightarrow> Some (m, m_index m + 1 + length (m_1 m) + length (m_2 m)))"

definition test :: "jsstring \<Rightarrow> bool" where
  \<comment> \<open>\<^verbatim>\<open>PATTERN.lastIndex = 0; PATTERN.test(text)\<close>\<close>
  "test text = (exec text 0 \<noteq> None)"

section \<open>The document tree\<close>

text \<open>
  A node is a text node or an element. An element carries what \<^verbatim>\<open>tagName\<close> returns
  (upper case for the elements of an HTML document), the tokens of its class attribute,
  its other attributes, the properties of its inline style (under the names the code
  assigns them by) and its children. Names of tags, attributes and style properties are
  ASCII. A node of the document is addressed
  by its path: the child indices from the document element down to it. Replacing one
  child by one node leaves the path of every other node as it was.
\<close>

datatype node =
    Text (nodeValue: jsstring)
  | Element (tagName: string) (classList: "jsstring list")
      (attributes: "(string \<times> jsstring) list") (style: "(string \<times> jsstring) list")
      (childNodes: "node list")

type_synonym path = "nat list"

definition WRAPPER_CLASS :: jsstring where
  "WRAPPER_CLASS = js ''print-fillers-wrapper''"

definition INPUT_CLASS :: jsstring where
  "INPUT_CLASS = js ''print-fillable-input''"

definition STYLE_ID :: jsstring where
  "STYLE_ID = js ''print-fillers-style''"

definition createTextNode :: "jsstring \<Rightarrow> node" where
  "createTextNode s = Text s"

definition createInputFor :: "nat \<Rightarrow> node" where
  "createInputFor underscoresCount =
     Element ''INPUT'' [INPUT_CLASS]
       [(''type'', js ''text''),
        (''data-underscores'', String_nat underscoresCount),
        (''aria-label'', js ''fillable''),
        (''autocomplete'', js ''off''),
        (''spellcheck'', js ''false'')]
       [(''width'', String_nat (max 2 underscoresCount) @ js ''ch''),
        (''background'', js ''transparent''),
        (''border'', js ''none''),
        (''borderBottom'', js ''1px solid #000''),
        (''padding'', js ''0''),
        (''margin'', js ''0 .1ch''),
        (''boxSizing'', js ''content-box''),
        (''font'', js ''inherit'')]
       []"

function replace_loop ::
  "jsstring \<Rightarrow> nat \<Rightarrow> nat \<Rightarrow> node list \<Rightarrow> bool \<Rightarrow> nat \<times> node list \<times> bool" where
  \<comment> \<open>The \<^verbatim>\<open>while ((m = PATTERN.exec(text)) !== null)\<close> loop of \<^verbatim>\<open>replaceInTextNode\<close>:
    the state is \<^verbatim>\<open>PATTERN.lastIndex\<close>, \<^verbatim>\<open>lastIndex\<close>, the children appended to
    \<^verbatim>\<open>frag\<close> so far and \<^verbatim>\<open>replaced\<close>. Both groups always take part in a match, so
    \<^verbatim>\<open>m[1] || ''\<close> is \<^verbatim>\<open>m[1]\<close> and \<^verbatim>\<open>m[2] || ''\<close> is \<^verbatim>\<open>m[2]\<close>.\<close>
  "replace_loop text patLastIndex lastIndex frag replaced =
     (case exec text patLastIndex of
        None \<Rightarrow> (lastIndex, frag, replaced)
      | Some (m, matchEnd) \<Rightarrow>
          (let matchStart = m_index m;
               before = slice text lastIndex matchStart;
               spaces = m_1 m;
               underscores = m_2 m;
               count = length underscores;
               frag1 = (if before \<noteq> [] then frag @ [createTextNode before] else frag);
               frag2 = frag1 @ [createTextNode (COLON # spaces)];
               input = createInputFor count;
               frag3 = frag2 @ [input]
           in replace_loop text matchEnd matchEnd frag3 True))"
  by pat_completeness auto

lemma search_index_ge: "search s i = Some m \<Longrightarrow> i \<le> m_index m"
proof (induction s arbitrary: i)
  case Nil
  then show ?case by simp
next
  case (Cons c r)
  show ?case
  proof (cases "match_here (c # r)")
    case None
    with Cons.prems have "search r (Suc i) = Some m" by simp
    from Cons.IH [OF this] show ?thesis by simp
  next
    case (Some p)
    with Cons.prems show ?thesis by (auto split: prod.splits)
  qed
qed

lemma match_here_length:
  "match_here s = Some (sp, us) \<Longrightarrow> 1 + length sp + length us \<le> length s \<and> 5 \<le> length us"
proof -
  assume h: "match_here s = Some (sp, us)"
  then obtain r where s: "s = COLON # r"
    and sp: "sp = takeWhile isWhiteSpace r"
    and us: "us = takeWhile (\<lambda>x. x = UNDERSCORE) (dropWhile isWhiteSpace r)"
    and five: "5 \<le> length us"
    by (auto simp: match_here_def Let_def split: list.splits if_splits)
  have "length us \<le> length (dropWhile isWhiteSpace r)"
    unfolding us by (rule length_takeWhile_le)
  moreover have "length sp + length (dropWhile isWhiteSpace r) = length r"
    unfolding sp by (metis length_append takeWhile_dropWhile_id)
  ultimately show ?thesis using s five by simp
qed

lemma search_end_le:
  "search s i = Some m \<Longrightarrow> m_index m + 1 + length (m_1 m) + length (m_2 m) \<le> i + length s"
proof (induction s arbitrary: i)
  case Nil
  then show ?case by simp
next
  case (Cons c r)
  show ?case
  proof (cases "match_here (c # r)")
    case None
    with Cons.prems have "search r (Suc i) = Some m" by simp
    from Cons.IH [OF this] show ?thesis by simp
  next
    case (Some p)
    obtain sp us where p: "p = (sp, us)" by (cases p)
    with Some Cons.prems have m: "m = \<lparr>m_index = i, m_1 = sp, m_2 = us\<rparr>" by simp
    from match_here_length [of "c # r" sp us] Some p
    show ?thesis by (simp add: m)
  qed
qed

lemma exec_bounds:
  assumes "exec text li = Some (m, e)"
  shows "li < e" and "e \<le> length text"
proof -
  from assms have le: "li \<le> length text"
    and s: "search (drop li text) li = Some m"
    and e: "e = m_index m + 1 + length (m_1 m) + length (m_2 m)"
    by (auto simp: exec_def split: if_splits option.splits)
  from search_index_ge [OF s] e show "li < e" by simp
  from search_end_le [OF s] le e show "e \<le> length text" by simp
qed

lemma exec_measure:
  "exec tx li = Some (m, e) \<Longrightarrow> Suc (length tx) - e < Suc (length tx) - li"
  using exec_bounds [of tx li m e] by arith

termination replace_loop
  by (relation "measure (\<lambda>(tx, patLastIndex, lastIndex, frag, replaced).
        Suc (length tx) - patLastIndex)")
    (auto intro: exec_measure)

declare replace_loop.simps [simp del]

definition wrapper_for :: "jsstring \<Rightarrow> node option" where
  \<comment> \<open>What \<^verbatim>\<open>replaceInTextNode\<close> builds from \<^verbatim>\<open>node.nodeValue\<close>: \<open>None\<close> where it
    returns false, else the wrapper it puts in the node's place.
    \<^verbatim>\<open>wrapper.dataset.original = text\<close> is the attribute \<^verbatim>\<open>data-original\<close>.\<close>
  "wrapper_for text =
     (if text = [] then None
      else case replace_loop text 0 0 [] False of
        (lastIndex, frag, replaced) \<Rightarrow>
          if \<not> replaced then None
          else
            (let remainder = slice_from text lastIndex;
                 frag' = (if remainder \<noteq> [] then frag @ [createTextNode remainder] else frag)
             in Some (Element ''SPAN'' [WRAPPER_CLASS] [(''data-original'', text)] [] frag')))"


section \<open>DOM operations\<close>

text \<open>
  Exceptions: the TypeError of a call on null, the HierarchyRequestError of a text node
  put under the document, and any other exception a host may raise, by number.
\<close>

datatype exn = TypeError | HierarchyRequestError | HostError nat

fun get_node :: "node \<Rightarrow> path \<Rightarrow> node option" where
  "get_node n [] = Some n"
| "get_node (Text v) (i # p) = None"
| "get_node (Element t c a s cs) (i # p) =
     (if i < length cs then get_node (cs ! i) p else None)"

fun update_at :: "node \<Rightarrow> path \<Rightarrow> (node \<Rightarrow> node) \<Rightarrow> node" where
  \<comment> \<open>The tree with the node at a path changed; a path that leads nowhere changes
    nothing.\<close>
  "update_at n [] f = f n"
| "update_at (Text v) (i # p) f = Text v"
| "update_at (Element t c a s cs) (i # p) f =
     (if i < length cs then Element t c a s (cs[i := update_at (cs ! i) p f])
      else Element t c a s cs)"

definition replaceChild :: "node \<Rightarrow> path \<Rightarrow> node \<Rightarrow> node" where
  \<comment> \<open>\<^verbatim>\<open>old.parentNode.replaceChild(new, old)\<close> for the node \<^verbatim>\<open>old\<close> at path \<open>p\<close>.\<close>
  "replaceChild d p new = update_at d p (\<lambda>_. new)"

definition appendChild :: "node \<Rightarrow> path \<Rightarrow> node \<Rightarrow> node" where
  \<comment> \<open>\<^verbatim>\<open>parent.appendChild(new)\<close> for the element \<^verbatim>\<open>parent\<close> at path \<open>p\<close>.\<close>
  "appendChild d p new =
     update_at d p (\<lambda>n. case n of Text v \<Rightarrow> Text v
                         | Element t c a s cs \<Rightarrow> Element t c a s (cs @ [new]))"

definition toLowerCase :: "string \<Rightarrow> string" where
  \<comment> \<open>On ASCII names. (For the comparisons below this is all of \<^verbatim>\<open>toLowerCase\<close>: the
    only other letters it maps into ASCII are U+212A to k, which no compared name has.)\<close>
  "toLowerCase s =
     map (\<lambda>c. case map_of (zip ''ABCDEFGHIJKLMNOPQRSTUVWXYZ'' ''abcdefghijklmnopqrstuvwxyz'') c of
                 Some l \<Rightarrow> l | None \<Rightarrow> c) s"

fun first_index :: "('a \<Rightarrow> bool) \<Rightarrow> 'a list \<Rightarrow> nat option" where
  "first_index P [] = None"
| "first_index P (x # xs) = (if P x then Some 0 else map_option Suc (first_index P xs))"

definition is_tag :: "string list \<Rightarrow> node \<Rightarrow> bool" where
  "is_tag names n = (case n of Text v \<Rightarrow> False
                     | Element t c a s cs \<Rightarrow> toLowerCase t \<in> set names)"

definition document_head :: "node \<Rightarrow> path option" where
  \<comment> \<open>\<^verbatim>\<open>document.head\<close>: the first \<^verbatim>\<open>head\<close> child of the \<^verbatim>\<open>html\<close> document element,
    or null.\<close>
  "document_head d =
     (if is_tag [''html''] d
      then map_option (\<lambda>i. [i]) (first_index (is_tag [''head'']) (childNodes d))
      else None)"

definition document_body :: "node \<Rightarrow> path option" where
  \<comment> \<open>\<^verbatim>\<open>document.body\<close>: the first \<^verbatim>\<open>body\<close> or \<^verbatim>\<open>frameset\<close> child of the \<^verbatim>\<open>html\<close>
    document element, or null.\<close>
  "document_body d =
     (if is_tag [''html''] d
      then map_option (\<lambda>i. [i]) (first_index (is_tag [''body'', ''frameset'']) (childNodes d))
      else None)"

fun elements :: "node \<Rightarrow> node list" where
  \<comment> \<open>The elements of a tree, in document order.\<close>
  "elements (Text v) = []"
| "elements (Element t c a s cs) = Element t c a s cs # concat (map elements cs)"

definition getAttribute :: "node \<Rightarrow> string \<Rightarrow> jsstring option" where
  "getAttribute n name = (case n of Text v \<Rightarrow> None | Element t c a s cs \<Rightarrow> map_of a name)"

definition getElementById :: "node \<Rightarrow> jsstring \<Rightarrow> node option" where
  "getElementById d i = find (\<lambda>e. getAttribute e ''id'' = Some i) (elements d)"

section \<open>Style injection\<close>

definition STYLE_TEXT :: jsstring where
  \<comment> \<open>The template literal assigned to \<^verbatim>\<open>style.textContent\<close>, line by line.\<close>
  "STYLE_TEXT =
     concat (map (\<lambda>l. 0xA # l)
       [js ''      /* Styling used only during print preview / print */'',
        js ''      @media print {'',
        js ''        .'' @ INPUT_CLASS @ js '' {'',
        js ''          -webkit-print-color-adjust: exact;'',
        js ''          color: #000 !important;'',
        js ''          background: transparent !important;'',
        js ''          border: none !important;'',
        js ''          border-bottom: 1px solid #000 !important;'',
        js ''          padding: 0 !important;'',
        js ''          margin: 0 .1ch !important;'',
        js ''          font: inherit !important;'',
        js ''          box-sizing: content-box !important;'',
        js ''        }'',
        js ''        .'' @ WRAPPER_CLASS @ js '' input { -webkit-appearance: none; appearance: none; }'',
        js ''      }'',
        [],
        js ''      /* Keep inputs visually unobtrusive on the screen if they appear briefly */'',
        js ''      .'' @ INPUT_CLASS @ js '' {'',
        js ''        font: inherit;'',
        js ''        vertical-align: baseline;'',
        js ''      }'',
        js ''    ''])"

definition style_element :: node where
  "style_element = Element ''STYLE'' [] [(''id'', STYLE_ID)] [] [createTextNode STYLE_TEXT]"

definition ensureStyle :: "node \<Rightarrow> exn + node" where
  \<comment> \<open>\<^verbatim>\<open>document.head.appendChild(style)\<close> is a TypeError when \<^verbatim>\<open>document.head\<close> is
    null; nothing of the document has changed by then.\<close>
  "ensureStyle d =
     (if getElementById d STYLE_ID \<noteq> None then Inr d
      else case document_head d of
             None \<Rightarrow> Inl TypeError
           | Some h \<Rightarrow> Inr (appendChild d h style_element))"

section \<open>Scan\<close>

text \<open>
  The host: the exceptions a DOM implementation raises of its own accord, beside those
  the code provokes (a null \<^verbatim>\<open>document.head\<close>, a null root). A call that raises has
  not changed the document: \<^verbatim>\<open>replaceInTextNode\<close> touches the document in its last
  statement only.
\<close>

record host =
  walker_fault :: "exn option"
  replace_fault :: "path \<Rightarrow> exn option"
  timer_fault :: "exn option"

definition no_faults :: host where
  "no_faults = \<lparr>walker_fault = None, replace_fault = (\<lambda>_. None), timer_fault = None\<rparr>"

definition replaceInTextNode :: "host \<Rightarrow> node \<Rightarrow> path \<Rightarrow> exn + node \<times> bool" where
  \<comment> \<open>On the node at path \<open>n\<close> of document \<open>d\<close>: the document afterwards and the value
    returned. An element has a null \<^verbatim>\<open>nodeValue\<close> (and so has, here, a path that leads
    nowhere); a node without a parent has a null \<^verbatim>\<open>parentNode\<close>.\<close>
  "replaceInTextNode H d n =
     (case replace_fault H n of
        Some e \<Rightarrow> Inl e
      | None \<Rightarrow>
         (case get_node d n of
            Some (Text tx) \<Rightarrow>
              (case wrapper_for tx of
                 None \<Rightarrow> Inr (d, False)
               | Some wrapper \<Rightarrow>
                   if n = [] then Inl TypeError
                   else Inr (replaceChild d n wrapper, True))
          | _ \<Rightarrow> Inr (d, False)))"

definition EXEMPT :: "string list" where
  "EXEMPT = [''script'', ''style'', ''textarea'', ''code'', ''pre'', ''input'', ''select'',
             ''button'', ''svg'']"

definition acceptNode :: "string option \<Rightarrow> jsstring \<Rightarrow> bool" where
  \<comment> \<open>The filter of the tree walker, on a text node's value and the \<^verbatim>\<open>tagName\<close> of its
    parent (\<open>None\<close>: no parent, or a parent that is not an element). True is
    \<^verbatim>\<open>FILTER_ACCEPT\<close>, False is \<^verbatim>\<open>FILTER_REJECT\<close>.\<close>
  "acceptNode parent v =
     (if v = [] \<or> trim v = [] then False
      else case parent of
             None \<Rightarrow> False
           | Some t \<Rightarrow>
               (let tag = toLowerCase t
                in if tag \<in> set EXEMPT then False else test v))"

fun walk :: "node \<Rightarrow> path list"
  and walk_children :: "string \<Rightarrow> nat \<Rightarrow> node list \<Rightarrow> path list" where
  \<comment> \<open>\<^verbatim>\<open>while ((cur = walker.nextNode())) nodes.push(cur)\<close>: the text nodes below the root
    that the filter accepts, in document order, as paths from the root. Elements are not
    shown to the filter and the walker goes on into them.\<close>
  "walk (Text v) = []"
| "walk (Element t c a s cs) = walk_children t 0 cs"
| "walk_children t i [] = []"
| "walk_children t i (ch # rest) =
     (case ch of
        Text v \<Rightarrow> if acceptNode (Some t) v then [[i]] else []
      | Element t' c' a' s' cs' \<Rightarrow> map ((#) i) (walk ch))
     @ walk_children t (Suc i) rest"

fun replace_each :: "host \<Rightarrow> path list \<Rightarrow> node \<Rightarrow> exn \<times> node + node" where
  \<comment> \<open>\<^verbatim>\<open>for (const n of nodes) replaceInTextNode(n)\<close>; where a call raises, the exception
    with the document as it stands.\<close>
  "replace_each H [] d = Inr d"
| "replace_each H (n # ns) d =
     (case replaceInTextNode H d n of
        Inl e \<Rightarrow> Inl (e, d)
      | Inr (d', r) \<Rightarrow> replace_each H ns d')"

definition scan_try :: "host \<Rightarrow> path option \<Rightarrow> node \<Rightarrow> exn \<times> node + node" where
  \<comment> \<open>The \<^verbatim>\<open>try\<close> block of \<^verbatim>\<open>scan\<close>: the exception with the document as it stands, or
    the document. \<^verbatim>\<open>createTreeWalker\<close> raises a TypeError on a null root (\<open>None\<close>, or a
    path that leads nowhere).\<close>
  "scan_try H root d =
     (case root of
        None \<Rightarrow> Inl (TypeError, d)
      | Some r \<Rightarrow>
         (case get_node d r of
            None \<Rightarrow> Inl (TypeError, d)
          | Some rn \<Rightarrow>
             (case walker_fault H of
                Some e \<Rightarrow> Inl (e, d)
              | None \<Rightarrow> replace_each H (map ((@) r) (walk rn)) d)))"

record state =
  document :: node
  console :: "(jsstring \<times> exn) list"
  timers :: "(nat \<times> nat) list"

definition scan :: "host \<Rightarrow> path option \<Rightarrow> state \<Rightarrow> exn + state" where
  \<comment> \<open>\<^verbatim>\<open>try { ... } catch (err) { console.warn('print-fillers: scanning failed', err) }\<close>\<close>
  "scan H root st =
     (case scan_try H root (document st) of
        Inr d \<Rightarrow> Inr (st\<lparr>document := d\<rparr>)
      | Inl (err, d) \<Rightarrow>
          Inr (st\<lparr>document := d,
                  console := console st @ [(js ''print-fillers: scanning failed'', err)]\<rparr>))"

definition beforePrint :: "host \<Rightarrow> state \<Rightarrow> exn + state" where
  "beforePrint H st =
     (case ensureStyle (document st) of
        Inl e \<Rightarrow> Inl e
      | Inr d \<Rightarrow> scan H (document_body d) (st\<lparr>document := d\<rparr>))"

section \<open>Revert\<close>

definition matches_wrapper :: "node \<Rightarrow> bool" where
  \<comment> \<open>The selector \<^verbatim>\<open>'span.' + WRAPPER_CLASS\<close>.\<close>
  "matches_wrapper n =
     (case n of Text v \<Rightarrow> False
      | Element t c a s cs \<Rightarrow> toLowerCase t = ''span'' \<and> WRAPPER_CLASS \<in> set c)"

fun querySelectorAll :: "node \<Rightarrow> path list"
  and querySelectorAll_children :: "nat \<Rightarrow> node list \<Rightarrow> path list" where
  \<comment> \<open>The elements of the document that match the selector, in document order.\<close>
  "querySelectorAll (Text v) = []"
| "querySelectorAll (Element t c a s cs) =
     (if matches_wrapper (Element t c a s cs) then [[]] else [])
     @ querySelectorAll_children 0 cs"
| "querySelectorAll_children i [] = []"
| "querySelectorAll_children i (ch # rest) =
     map ((#) i) (querySelectorAll ch) @ querySelectorAll_children (Suc i) rest"

fun revert_each :: "path list \<Rightarrow> node \<Rightarrow> exn + node" where
  \<comment> \<open>\<^verbatim>\<open>wrappers.forEach((w) => { ... })\<close> over the static list. A wrapper whose path
    leads nowhere any more lies inside a wrapper replaced before it: the call then works
    on that detached subtree and the document stays as it is. The document element's
    parent is the document, which takes no text node as a child.\<close>
  "revert_each [] d = Inr d"
| "revert_each (w # ws) d =
     (case get_node d w of
        None \<Rightarrow> revert_each ws d
      | Some n \<Rightarrow>
         (case getAttribute n ''data-original'' of
            None \<Rightarrow> revert_each ws d
          | Some original \<Rightarrow>
              if w = [] then Inl HierarchyRequestError
              else revert_each ws (replaceChild d w (createTextNode original))))"

definition afterPrint :: "state \<Rightarrow> exn + state" where
  "afterPrint st =
     (case revert_each (querySelectorAll (document st)) (document st) of
        Inl e \<Rightarrow> Inl e
      | Inr d \<Rightarrow> Inr (st\<lparr>document := d\<rparr>))"

section \<open>The wrapper around \<^verbatim>\<open>window.print\<close>\<close>

definition setTimeout_afterPrint :: "host \<Rightarrow> state \<Rightarrow> exn + state" where
  \<comment> \<open>\<^verbatim>\<open>setTimeout(afterPrint, 500)\<close>: a timer for callback 0, \<^verbatim>\<open>afterPrint\<close>.\<close>
  "setTimeout_afterPrint H st =
     (case timer_fault H of
        Some e \<Rightarrow> Inl e
      | None \<Rightarrow> Inr (st\<lparr>timers := timers st @ [(0, 500)]\<rparr>))"

definition window_print ::
  "host \<Rightarrow> ('a \<Rightarrow> state \<Rightarrow> (exn + 'r) \<times> state) \<Rightarrow> 'a \<Rightarrow> state \<Rightarrow> (exn + 'r) \<times> state" where
  \<comment> \<open>The function assigned to \<^verbatim>\<open>window.print\<close>, over the original \<^verbatim>\<open>origPrint\<close>. An
    exception of \<^verbatim>\<open>origPrint\<close> itself is not caught.\<close>
  "window_print H origPrint args st =
     (let st1 = (case beforePrint H st of Inl e \<Rightarrow> st | Inr st' \<Rightarrow> st')
      in case origPrint args st1 of
           (Inl e, st2) \<Rightarrow> (Inl e, st2)
         | (Inr res, st2) \<Rightarrow>
             (let st3 = (case setTimeout_afterPrint H st2 of Inl e \<Rightarrow> st2 | Inr st' \<Rightarrow> st')
              in (Inr res, st3)))"

section \<open>Vocabulary for the properties\<close>

text \<open>
  What follows is not code of the program: it is what the properties are stated and
  proved with.
\<close>

subsection \<open>The pieces of a text\<close>

text \<open>
  A piece is one placeholder match with the text in front of it: the text before the
  colon, the white space captured after the colon, and the length of the underscore run.
\<close>

type_synonym piece = "jsstring \<times> jsstring \<times> nat"

definition piece_text :: "piece \<Rightarrow> jsstring" where
  \<comment> \<open>The part of the original text a piece stands for.\<close>
  "piece_text p = (case p of (before, spaces, count) \<Rightarrow>
      before @ COLON # spaces @ replicate count UNDERSCORE)"

definition piece_nodes :: "piece \<Rightarrow> node list" where
  \<comment> \<open>The nodes one pass of the loop appends for a piece.\<close>
  "piece_nodes p = (case p of (before, spaces, count) \<Rightarrow>
      (if before \<noteq> [] then [Text before] else [])
      @ [Text (COLON # spaces), createInputFor count])"

definition piece_field :: "piece \<Rightarrow> node" where
  "piece_field p = (case p of (before, spaces, count) \<Rightarrow> createInputFor count)"

definition piece_ok :: "piece \<Rightarrow> bool" where
  "piece_ok p = (case p of (before, spaces, count) \<Rightarrow>
      \<not> test before \<and> list_all isWhiteSpace spaces \<and> 5 \<le> count)"

definition starts_with_underscore :: "jsstring \<Rightarrow> bool" where
  "starts_with_underscore s = (case s of [] \<Rightarrow> False | c # r \<Rightarrow> c = UNDERSCORE)"

fun runs_end :: "piece list \<Rightarrow> jsstring \<Rightarrow> bool" where
  \<comment> \<open>No underscore follows the run of any piece: each run is counted whole.\<close>
  "runs_end [] rest = True"
| "runs_end (p # ps) rest =
     (\<not> starts_with_underscore (concat (map piece_text ps) @ rest) \<and> runs_end ps rest)"

subsection \<open>Children as they read\<close>

definition isElement :: "node \<Rightarrow> bool" where
  "isElement n = (case n of Text v \<Rightarrow> False | Element t c a s cs \<Rightarrow> True)"

fun merge_text :: "node list \<Rightarrow> node list" where
  \<comment> \<open>A list of children with adjacent text nodes joined: the text as it reads.\<close>
  "merge_text (Text a # Text b # ns) = merge_text (Text (a @ b) # ns)"
| "merge_text (n # ns) = n # merge_text ns"
| "merge_text [] = []"

subsection \<open>Scan and Revert as functions on trees\<close>

definition replaced_node :: "node \<Rightarrow> node" where
  \<comment> \<open>What \<^verbatim>\<open>replaceInTextNode\<close> leaves in the place of a node.\<close>
  "replaced_node x =
     (case x of
        Text tx \<Rightarrow> (case wrapper_for tx of None \<Rightarrow> x | Some w \<Rightarrow> w)
      | Element t c a s cs \<Rightarrow> x)"

definition reverted_node :: "node \<Rightarrow> node" where
  \<comment> \<open>What the callback of \<^verbatim>\<open>afterPrint\<close> leaves in the place of a wrapper.\<close>
  "reverted_node x =
     (case getAttribute x ''data-original'' of
        None \<Rightarrow> x
      | Some original \<Rightarrow> createTextNode original)"

definition update_all :: "(node \<Rightarrow> node) \<Rightarrow> path list \<Rightarrow> node \<Rightarrow> node" where
  \<comment> \<open>One change after the other, at each path of a list.\<close>
  "update_all f ps d = fold (\<lambda>p d. update_at d p f) ps d"

definition accepted_at :: "node \<Rightarrow> path \<Rightarrow> bool" where
  \<comment> \<open>The node at path \<open>q\<close> is a text node that the filter accepts under its parent.\<close>
  "accepted_at n q =
     (q \<noteq> [] \<and>
      (case get_node n (butlast q) of
         Some (Element t c a s cs) \<Rightarrow>
           (case get_node n q of Some (Text v) \<Rightarrow> acceptNode (Some t) v | _ \<Rightarrow> False)
       | _ \<Rightarrow> False))"

definition revertible :: "node \<Rightarrow> bool" where
  \<comment> \<open>An element that \<^verbatim>\<open>afterPrint\<close> selects and replaces: a \<^verbatim>\<open>span\<close> of the wrapper class
    with a \<^verbatim>\<open>data-original\<close> attribute.\<close>
  "revertible n \<longleftrightarrow> matches_wrapper n \<and> getAttribute n ''data-original'' \<noteq> None"

fun revert_tree :: "node \<Rightarrow> node"
  and revert_children :: "node list \<Rightarrow> node list" where
  \<comment> \<open>The tree with every outermost revertible element replaced by its stored text.\<close>
  "revert_tree (Text v) = Text v"
| "revert_tree (Element t c a s cs) =
     (if revertible (Element t c a s cs) then reverted_node (Element t c a s cs)
      else Element t c a s (revert_children cs))"
| "revert_children [] = []"
| "revert_children (ch # rest) = revert_tree ch # revert_children rest"

fun scan_tree :: "node \<Rightarrow> node"
  and scan_children :: "string \<Rightarrow> node list \<Rightarrow> node list" where
  \<comment> \<open>The tree below a root after a scan that no exception stops: every text node the
    filter accepts is replaced.\<close>
  "scan_tree (Text v) = Text v"
| "scan_tree (Element t c a s cs) = Element t c a s (scan_children t cs)"
| "scan_children t [] = []"
| "scan_children t (ch # rest) =
     (case ch of
        Text v \<Rightarrow> if acceptNode (Some t) v then replaced_node ch else ch
      | Element t' c' a' s' cs' \<Rightarrow> scan_tree ch)
     # scan_children t rest"

subsection \<open>The elements with an id\<close>

definition elements_with_id :: "node \<Rightarrow> jsstring \<Rightarrow> string list" where
  \<comment> \<open>The tag names of the elements of the document that carry the given id, in
    document order.\<close>
  "elements_with_id d i =
     map tagName (filter (\<lambda>e. getAttribute e ''id'' = Some i) (elements d))"

subsection \<open>Example documents and hosts\<close>

definition nested_pre_document :: node where
  \<comment> \<open>\<^verbatim>\<open><html><head></head><body><pre><span>a: _____</span></pre></body></html>\<close>\<close>
  "nested_pre_document =
     Element ''HTML'' [] [] []
       [Element ''HEAD'' [] [] [] [],
        Element ''BODY'' [] [] []
          [Element ''PRE'' [] [] [] [Element ''SPAN'' [] [] [] [Text (js ''a: _____'')]]]]"

definition pre_document :: node where
  \<comment> \<open>\<^verbatim>\<open><html><head></head><body><pre>a: _____</pre></body></html>\<close>\<close>
  "pre_document =
     Element ''HTML'' [] [] []
       [Element ''HEAD'' [] [] [] [],
        Element ''BODY'' [] [] [] [Element ''PRE'' [] [] [] [Text (js ''a: _____'')]]]"

definition two_paragraphs :: node where
  \<comment> \<open>\<^verbatim>\<open><html><head></head><body><p>a: _____</p><p>a: _____</p></body></html>\<close>\<close>
  "two_paragraphs =
     Element ''HTML'' [] [] []
       [Element ''HEAD'' [] [] [] [],
        Element ''BODY'' [] [] []
          [Element ''P'' [] [] [] [Text (js ''a: _____'')],
           Element ''P'' [] [] [] [Text (js ''a: _____'')]]]"

definition second_replace_fails :: host where
  "second_replace_fails =
     \<lparr>walker_fault = None,
      replace_fault = (\<lambda>p. if p = [1, 1, 0] then Some (HostError 7) else None),
      timer_fault = None\<rparr>"

definition no_head_document :: node where
  \<comment> \<open>A document element without a \<^verbatim>\<open>head\<close>: \<^verbatim>\<open>document.head\<close> is null.\<close>
  "no_head_document = Element ''HTML'' [] [] [] [Element ''BODY'' [] [] [] []]"

definition timer_fails :: host where
  "timer_fails =
     \<lparr>walker_fault = None, replace_fault = (\<lambda>p. None), timer_fault = Some (HostError 1)\<rparr>"

definition print_action :: "nat \<Rightarrow> state \<Rightarrow> (exn + nat) \<times> state" where
  \<comment> \<open>A print action that returns its argument plus one and leaves the state alone.\<close>
  "print_action a st = (Inr (a + 1), st)"

definition bare_wrapper_document :: node where
  \<comment> \<open>\<^verbatim>\<open><html><head></head><body><span class="print-fillers-wrapper">a: <input></span>\<close>
    \<^verbatim>\<open></body></html>\<close>, the \<^verbatim>\<open>input\<close> being a field for five underscores.\<close>
  "bare_wrapper_document =
     Element ''HTML'' [] [] []
       [Element ''HEAD'' [] [] [] [],
        Element ''BODY'' [] [] []
          [Element ''SPAN'' [WRAPPER_CLASS] [] [] [Text (js ''a: ''), createInputFor 5]]]"

definition small_document :: node where
  \<comment> \<open>\<^verbatim>\<open><html><head></head><body><p>a: _____</p></body></html>\<close>\<close>
  "small_document =
     Element ''HTML'' [] [] []
       [Element ''HEAD'' [] [] [] [],
        Element ''BODY'' [] [] [] [Element ''P'' [] [] [] [Text (js ''a: _____'')]]]"

section \<open>Properties of the pattern and of the loop\<close>

lemma ws_not_colon: "isWhiteSpace c \<Longrightarrow> c \<noteq> COLON"
  by (auto simp: isWhiteSpace_def COLON_def)

lemma ws_not_underscore: "isWhiteSpace c \<Longrightarrow> c \<noteq> UNDERSCORE"
  by (auto simp: isWhiteSpace_def UNDERSCORE_def)

lemma colon_not_underscore: "COLON \<noteq> UNDERSCORE"
  by (simp add: COLON_def UNDERSCORE_def)

lemma takeWhile_eq_replicate:
  "takeWhile (\<lambda>x. x = a) xs = replicate (length (takeWhile (\<lambda>x. x = a) xs)) a"
  by (rule replicate_length_same [symmetric]) (auto dest: set_takeWhileD)

lemma match_here_shape:
  assumes "match_here s = Some (sp, us)"
  shows "s = COLON # sp @ us @ drop (1 + length sp + length us) s"
    and "\<forall>c\<in>set sp. isWhiteSpace c"
    and "us = replicate (length us) UNDERSCORE"
    and "5 \<le> length us"
    and "\<forall>r. drop (1 + length sp + length us) s \<noteq> UNDERSCORE # r"
proof -
  from assms obtain r where s: "s = COLON # r"
    and sp: "sp = takeWhile isWhiteSpace r"
    and us: "us = takeWhile (\<lambda>x. x = UNDERSCORE) (dropWhile isWhiteSpace r)"
    and five: "5 \<le> length us"
    by (auto simp: match_here_def Let_def split: list.splits if_splits)
  define d where "d = dropWhile isWhiteSpace r"
  define t where "t = dropWhile (\<lambda>x. x = UNDERSCORE) d"
  have r: "r = sp @ d" by (simp add: sp d_def)
  have d: "d = us @ t" by (simp add: us t_def d_def)
  have whole: "s = COLON # sp @ us @ t" by (simp add: s r d)
  have rest: "drop (1 + length sp + length us) s = t"
    by (subst whole) simp
  show "s = COLON # sp @ us @ drop (1 + length sp + length us) s"
    by (simp only: rest) (rule whole)
  show "\<forall>c\<in>set sp. isWhiteSpace c" unfolding sp by (auto dest: set_takeWhileD)
  show "us = replicate (length us) UNDERSCORE" unfolding us by (rule takeWhile_eq_replicate)
  show "5 \<le> length us" by (rule five)
  have "t \<noteq> UNDERSCORE # r'" for r'
  proof
    assume e: "t = UNDERSCORE # r'"
    then have "t \<noteq> []" by simp
    then have "hd t \<noteq> UNDERSCORE" unfolding t_def by (rule hd_dropWhile)
    with e show False by simp
  qed
  then show "\<forall>r. drop (1 + length sp + length us) s \<noteq> UNDERSCORE # r"
    by (simp only: rest) blast
qed

lemma match_here_intro:
  assumes "\<forall>c\<in>set sp. isWhiteSpace c" and "5 \<le> n" and "\<forall>r. rest \<noteq> UNDERSCORE # r"
  shows "match_here (COLON # sp @ replicate n UNDERSCORE @ rest) = Some (sp, replicate n UNDERSCORE)"
proof -
  have nw: "\<not> isWhiteSpace UNDERSCORE" using ws_not_underscore by blast
  have a: "takeWhile isWhiteSpace (sp @ replicate n UNDERSCORE @ rest) = sp"
    using assms nw by (cases n) (auto simp: takeWhile_append)
  have b: "dropWhile isWhiteSpace (sp @ replicate n UNDERSCORE @ rest) = replicate n UNDERSCORE @ rest"
    using assms nw by (cases n) (auto simp: dropWhile_append)
  have c: "takeWhile (\<lambda>x. x = UNDERSCORE) (replicate n UNDERSCORE @ rest) = replicate n UNDERSCORE"
    using assms(3) by (cases rest) (auto simp: takeWhile_append)
  show ?thesis using assms(2) by (simp add: match_here_def a b c)
qed

lemma length_takeWhile_append:
  "length (takeWhile P xs) \<le> length (takeWhile P (xs @ ys))"
  by (induction xs) auto

lemma match_here_append:
  assumes "match_here xs = Some (sp, us)"
  shows "match_here (xs @ ys) \<noteq> None"
proof -
  from assms obtain r where s: "xs = COLON # r"
    and us: "us = takeWhile (\<lambda>x. x = UNDERSCORE) (dropWhile isWhiteSpace r)"
    and five: "5 \<le> length us"
    by (auto simp: match_here_def Let_def split: list.splits if_splits)
  let ?d = "dropWhile isWhiteSpace r"
  have ne: "?d \<noteq> []"
  proof
    assume "?d = []"
    with us have "us = []" by simp
    with five show False by simp
  qed
  then have ex: "\<exists>x\<in>set r. \<not> isWhiteSpace x" by (auto simp: dropWhile_eq_Nil_conv)
  then have dw: "dropWhile isWhiteSpace (r @ ys) = ?d @ ys" by (auto simp: dropWhile_append1)
  have "length us \<le> length (takeWhile (\<lambda>x. x = UNDERSCORE) (?d @ ys))"
    unfolding us by (rule length_takeWhile_append)
  with five show ?thesis by (simp add: match_here_def s dw Let_def)
qed

lemma search_None_index: "search s i = None \<Longrightarrow> search s j = None"
proof (induction s arbitrary: i j)
  case Nil
  then show ?case by simp
next
  case (Cons c r)
  show ?case
  proof (cases "match_here (c # r)")
    case None
    with Cons.prems have "search r (Suc i) = None" by simp
    from Cons.IH [OF this, of "Suc j"] None show ?thesis by simp
  next
    case (Some p)
    with Cons.prems show ?thesis by (simp split: prod.splits)
  qed
qed

lemma search_Some_shape:
  "search s i = Some m \<Longrightarrow>
     \<exists>k. m_index m = i + k \<and> k < length s \<and> match_here (drop k s) = Some (m_1 m, m_2 m)
        \<and> search (take k s) j = None"
proof (induction s arbitrary: i j)
  case Nil
  then show ?case by simp
next
  case (Cons c r)
  show ?case
  proof (cases "match_here (c # r)")
    case None
    with Cons.prems have "search r (Suc i) = Some m" by simp
    from Cons.IH [OF this, of "Suc j"] obtain k where k: "m_index m = Suc i + k" "k < length r"
      "match_here (drop k r) = Some (m_1 m, m_2 m)" "search (take k r) (Suc j) = None" by blast
    have "match_here (c # take k r) = None"
    proof (rule ccontr)
      assume "match_here (c # take k r) \<noteq> None"
      then obtain sp us where "match_here (c # take k r) = Some (sp, us)" by auto
      from match_here_append [OF this, of "drop k r"] None show False by simp
    qed
    with k have "search (take (Suc k) (c # r)) j = None" by simp
    with k show ?thesis by (intro exI [of _ "Suc k"]) simp
  next
    case (Some p)
    with Cons.prems have "m_index m = i" "match_here (c # r) = Some (m_1 m, m_2 m)"
      by (auto split: prod.splits)
    then show ?thesis by (intro exI [of _ 0]) simp
  qed
qed

lemma test_search: "test s = (search s 0 \<noteq> None)"
  by (simp add: test_def exec_def split: option.splits)

lemma not_test_colon_spaces:
  assumes "\<forall>c\<in>set sp. isWhiteSpace c"
  shows "\<not> test (COLON # sp)"
proof -
  have a: "search sp i = None" for i using assms
    by (induction sp arbitrary: i) (auto simp: match_here_def ws_not_colon)
  have "dropWhile isWhiteSpace sp = []" using assms by simp
  then have "takeWhile (\<lambda>x. x = UNDERSCORE) (dropWhile isWhiteSpace sp) = []" by (simp only: takeWhile.simps)
  then have "match_here (COLON # sp) = None" by (simp add: match_here_def Let_def del: dropWhile_eq_Nil_conv)
  then show ?thesis by (simp add: test_search a)
qed

lemma exec_None_iff: "l \<le> length tx \<Longrightarrow> exec tx l = None \<longleftrightarrow> \<not> test (drop l tx)"
proof -
  have "(search (drop l tx) l = None) = (search (drop l tx) 0 = None)"
    by (blast dest: search_None_index)
  moreover assume "l \<le> length tx"
  then have "(exec tx l = None) = (search (drop l tx) l = None)"
    by (simp add: exec_def split: option.splits)
  ultimately show "exec tx l = None \<longleftrightarrow> \<not> test (drop l tx)"
    by (simp only: test_search not_not)
qed

lemma exec_Some_shape:
  assumes "exec tx l = Some (m, e)"
  shows "l \<le> m_index m"
    and "e \<le> length tx"
    and "drop l tx = slice tx l (m_index m) @ COLON # m_1 m @ replicate (length (m_2 m)) UNDERSCORE @ drop e tx"
    and "\<not> test (slice tx l (m_index m))"
    and "list_all isWhiteSpace (m_1 m)"
    and "5 \<le> length (m_2 m)"
    and "\<not> starts_with_underscore (drop e tx)"
proof -
  from assms have le: "l \<le> length tx"
    and s: "search (drop l tx) l = Some m"
    and e: "e = m_index m + 1 + length (m_1 m) + length (m_2 m)"
    by (auto simp: exec_def split: if_splits option.splits)
  from search_Some_shape [OF s, of 0] obtain k where k: "m_index m = l + k"
    "k < length (drop l tx)" "match_here (drop k (drop l tx)) = Some (m_1 m, m_2 m)"
    "search (take k (drop l tx)) 0 = None" by blast
  note sh = match_here_shape [OF k(3)]
  have sl: "slice tx l (m_index m) = take k (drop l tx)" by (simp add: slice_def k(1))
  have de: "drop (1 + length (m_1 m) + length (m_2 m)) (drop k (drop l tx)) = drop e tx"
    by (simp add: e k(1) ac_simps)
  show "l \<le> m_index m" by (simp add: k(1))
  show "e \<le> length tx" using exec_bounds(2) [OF assms] .
  have "drop l tx = take k (drop l tx) @ drop k (drop l tx)"
    by (rule append_take_drop_id [symmetric])
  also have "drop k (drop l tx) = COLON # m_1 m @ m_2 m @ drop e tx"
    using sh(1) by (simp only: de)
  also have "m_2 m = replicate (length (m_2 m)) UNDERSCORE" by (rule sh(3))
  finally show "drop l tx = slice tx l (m_index m) @ COLON # m_1 m @ replicate (length (m_2 m)) UNDERSCORE @ drop e tx"
    by (simp only: sl length_replicate)
  show "\<not> test (slice tx l (m_index m))" by (simp add: sl test_search k(4))
  show "list_all isWhiteSpace (m_1 m)" using sh(2) by (simp add: list_all_iff)
  show "5 \<le> length (m_2 m)" by (rule sh(4))
  show "\<not> starts_with_underscore (drop e tx)" using sh(5) unfolding de
    by (auto simp: starts_with_underscore_def split: list.splits)
qed

lemma replace_loop_pieces:
  "l \<le> length tx \<Longrightarrow>
   \<exists>ms e. replace_loop tx l l frag rep = (e, frag @ concat (map piece_nodes ms), rep \<or> ms \<noteq> [])
      \<and> e \<le> length tx
      \<and> drop l tx = concat (map piece_text ms) @ drop e tx
      \<and> \<not> test (drop e tx)
      \<and> list_all piece_ok ms
      \<and> runs_end ms (drop e tx)
      \<and> (ms = [] \<longleftrightarrow> \<not> test (drop l tx))"
proof (induction "length tx - l" arbitrary: l frag rep rule: less_induct)
  case less
  show ?case
  proof (cases "exec tx l")
    case None
    with less.prems have nt: "\<not> test (drop l tx)" by (simp add: exec_None_iff)
    have "replace_loop tx l l frag rep = (l, frag, rep)"
      by (subst replace_loop.simps) (simp add: None)
    with nt less.prems show ?thesis
      by (intro exI [of _ "[]"] exI [of _ l]) simp
  next
    case (Some p)
    obtain m e1 where p: "p = (m, e1)" by (cases p)
    with Some have ex: "exec tx l = Some (m, e1)" by simp
    note sh = exec_Some_shape [OF ex]
    from exec_bounds [OF ex] have lt: "length tx - e1 < length tx - l" and le1: "e1 \<le> length tx"
      by arith+
    define before where "before = slice tx l (m_index m)"
    define pc where "pc = (before, m_1 m, length (m_2 m))"
    define frag3 where "frag3 = frag @ piece_nodes pc"
    have step: "replace_loop tx l l frag rep = replace_loop tx e1 e1 frag3 True"
      by (subst replace_loop.simps)
        (simp add: ex Let_def frag3_def pc_def piece_nodes_def before_def createTextNode_def)
    from less.hyps [OF lt le1, of frag3 True] obtain ms e where
      r: "replace_loop tx e1 e1 frag3 True = (e, frag3 @ concat (map piece_nodes ms), True)"
      and e: "e \<le> length tx"
      and d: "drop e1 tx = concat (map piece_text ms) @ drop e tx"
      and nt: "\<not> test (drop e tx)"
      and ok: "list_all piece_ok ms"
      and re: "runs_end ms (drop e tx)"
      by auto
    have pok: "piece_ok pc" using sh(4,5,6) by (simp add: piece_ok_def pc_def before_def)
    have dl: "drop l tx = piece_text pc @ drop e1 tx"
      using sh(3) by (simp add: piece_text_def pc_def before_def)
    have t: "test (drop l tx)" using ex less.prems exec_None_iff [of l tx] by simp
    have c1: "replace_loop tx l l frag rep =
        (e, frag @ concat (map piece_nodes (pc # ms)), rep \<or> pc # ms \<noteq> [])"
      using step r by (simp add: frag3_def)
    have c3: "drop l tx = concat (map piece_text (pc # ms)) @ drop e tx"
      using dl d by simp
    have c5: "list_all piece_ok (pc # ms)" using pok ok by simp
    have c7: "runs_end (pc # ms) (drop e tx)" using re sh(7) by (simp add: d)
    have c6: "pc # ms = [] \<longleftrightarrow> \<not> test (drop l tx)" using t by simp
    from c1 e c3 nt c5 c6 c7 show ?thesis by blast
  qed
qed

lemma wrapper_for_None: "\<not> test tx \<Longrightarrow> wrapper_for tx = None"
proof -
  assume nt: "\<not> test tx"
  from replace_loop_pieces [of 0 tx "[]" False] nt
  obtain e where "replace_loop tx 0 0 [] False = (e, [], False)" by auto
  then show ?thesis by (simp add: wrapper_for_def)
qed

lemma test_Nil: "\<not> test []"
  by (simp add: test_search)

lemma wrapper_for_Some:
  assumes "test tx"
  shows "\<exists>ms rest.
     wrapper_for tx = Some (Element ''SPAN'' [WRAPPER_CLASS] [(''data-original'', tx)] []
        (concat (map piece_nodes ms) @ (if rest \<noteq> [] then [Text rest] else [])))
     \<and> tx = concat (map piece_text ms) @ rest \<and> ms \<noteq> [] \<and> list_all piece_ok ms
     \<and> runs_end ms rest \<and> \<not> test rest"
proof -
  from assms test_Nil have ne: "tx \<noteq> []" by auto
  from replace_loop_pieces [of 0 tx "[]" False] assms
  obtain ms e where r: "replace_loop tx 0 0 [] False = (e, concat (map piece_nodes ms), True)"
    and d: "tx = concat (map piece_text ms) @ drop e tx"
    and nt: "\<not> test (drop e tx)" and ok: "list_all piece_ok ms"
    and re: "runs_end ms (drop e tx)" and nn: "ms \<noteq> []"
    by auto
  have "wrapper_for tx = Some (Element ''SPAN'' [WRAPPER_CLASS] [(''data-original'', tx)] []
        (concat (map piece_nodes ms) @ (if drop e tx \<noteq> [] then [Text (drop e tx)] else [])))"
    using ne by (simp add: wrapper_for_def r slice_from_def createTextNode_def Let_def)
  with d nn ok re nt show ?thesis by blast
qed

lemma search_skip: "COLON \<notin> set pre \<Longrightarrow> search (pre @ s) i = search s (i + length pre)"
  by (induction pre arbitrary: i) (auto simp: match_here_def)

lemma search_no_colon: "COLON \<notin> set s \<Longrightarrow> search s i = None"
  by (induction s arbitrary: i) (auto simp: match_here_def)

lemma not_starts_with_underscore_iff:
  "\<not> starts_with_underscore s \<longleftrightarrow> (\<forall>r. s \<noteq> UNDERSCORE # r)"
  by (auto simp: starts_with_underscore_def split: list.splits)

lemma match_here_short:
  assumes "list_all isWhiteSpace sp" and "0 < k" and "k < 5" and "\<not> starts_with_underscore post"
  shows "match_here (COLON # sp @ replicate k UNDERSCORE @ post) = None"
proof -
  have nw: "\<not> isWhiteSpace UNDERSCORE" using ws_not_underscore by blast
  from assms(2) obtain j where k: "k = Suc j" by (cases k) auto
  have "dropWhile isWhiteSpace (sp @ replicate k UNDERSCORE @ post) =
      dropWhile isWhiteSpace (replicate k UNDERSCORE @ post)"
    using assms(1) by (intro dropWhile_append2) (simp add: list_all_iff)
  also have "\<dots> = replicate k UNDERSCORE @ post" using nw by (simp add: k)
  finally have b: "dropWhile isWhiteSpace (sp @ replicate k UNDERSCORE @ post) =
      replicate k UNDERSCORE @ post" .
  have c: "takeWhile (\<lambda>x. x = UNDERSCORE) (replicate k UNDERSCORE @ post) = replicate k UNDERSCORE"
    using assms(4) by (cases post) (auto simp: takeWhile_append starts_with_underscore_def)
  show ?thesis using assms(3) by (simp add: match_here_def b c)
qed

lemma single_match_exec:
  assumes "list_all isWhiteSpace sp" and "COLON \<notin> set pre" and "5 \<le> k"
    and "\<not> starts_with_underscore post"
  shows "exec (pre @ COLON # sp @ replicate k UNDERSCORE @ post) 0 =
     Some (\<lparr>m_index = length pre, m_1 = sp, m_2 = replicate k UNDERSCORE\<rparr>,
           length pre + 1 + length sp + k)"
proof -
  have "match_here (COLON # sp @ replicate k UNDERSCORE @ post) = Some (sp, replicate k UNDERSCORE)"
    using assms by (intro match_here_intro) (simp_all add: list_all_iff not_starts_with_underscore_iff)
  then show ?thesis using assms(2) by (simp add: exec_def search_skip)
qed

lemma single_match_wrapper:
  assumes "list_all isWhiteSpace sp" and "COLON \<notin> set pre" and "COLON \<notin> set post"
    and "5 \<le> k" and "\<not> starts_with_underscore post"
  shows "wrapper_for (pre @ COLON # sp @ replicate k UNDERSCORE @ post) =
     Some (Element ''SPAN'' [WRAPPER_CLASS]
        [(''data-original'', pre @ COLON # sp @ replicate k UNDERSCORE @ post)] []
        ((if pre \<noteq> [] then [Text pre] else []) @ [Text (COLON # sp), createInputFor k]
          @ (if post \<noteq> [] then [Text post] else [])))"
proof -
  define tx where "tx = pre @ COLON # sp @ replicate k UNDERSCORE @ post"
  define e where "e = length pre + 1 + length sp + k"
  define m where "m = \<lparr>m_index = length pre, m_1 = sp, m_2 = replicate k UNDERSCORE\<rparr>"
  have e1: "exec tx 0 = Some (m, e)"
    unfolding tx_def e_def m_def by (rule single_match_exec [OF assms(1,2,4,5)])
  have d: "drop e tx = post" by (simp add: e_def tx_def)
  have le: "\<not> length tx < e" by (simp add: e_def tx_def)
  have "search post e = None" using assms(3) by (rule search_no_colon)
  then have e2: "exec tx e = None" by (simp add: exec_def d le)
  have sl: "slice tx 0 (m_index m) = pre" by (simp add: slice_def tx_def m_def)
  have l2: "replace_loop tx e e fr True = (e, fr, True)" for fr
    by (subst replace_loop.simps) (simp only: e2 option.case)
  have l1: "replace_loop tx 0 0 [] False =
      (e, (if pre \<noteq> [] then [Text pre] else []) @ [Text (COLON # sp), createInputFor k], True)"
    by (subst replace_loop.simps)
      (simp add: e1 Let_def sl l2 createTextNode_def, simp add: m_def)
  have ne: "tx \<noteq> []" by (simp add: tx_def)
  have "wrapper_for tx = Some (Element ''SPAN'' [WRAPPER_CLASS] [(''data-original'', tx)] []
        ((if pre \<noteq> [] then [Text pre] else []) @ [Text (COLON # sp), createInputFor k]
          @ (if post \<noteq> [] then [Text post] else [])))"
    by (simp add: wrapper_for_def ne l1 slice_from_def createTextNode_def d Let_def)
  then show ?thesis by (simp only: tx_def)
qed

lemma short_run_no_match:
  assumes "list_all isWhiteSpace sp" and "COLON \<notin> set pre" and "COLON \<notin> set post"
    and "0 < k" and "k < 5" and "\<not> starts_with_underscore post"
  shows "\<not> test (pre @ COLON # sp @ replicate k UNDERSCORE @ post)"
proof -
  have m: "match_here (COLON # sp @ replicate k UNDERSCORE @ post) = None"
    using assms(1,4,5,6) by (rule match_here_short)
  have "COLON \<notin> set (sp @ replicate k UNDERSCORE @ post)"
    using assms(1,3) ws_not_colon colon_not_underscore by (auto simp: list_all_iff)
  then have "search (sp @ replicate k UNDERSCORE @ post) i = None" for i
    by (rule search_no_colon)
  with m assms(2) show ?thesis by (simp add: test_search search_skip)
qed

lemmas js_eval = js_def COLON_def UNDERSCORE_def isWhiteSpace_def WRAPPER_CLASS_def
  INPUT_CLASS_def

lemma createInputFor_width:
  "map_of (style (createInputFor n)) ''width'' = Some (String_nat (max 2 n) @ js ''ch'')"
  by (simp add: createInputFor_def)

lemma createInputFor_underscores:
  "getAttribute (createInputFor n) ''data-underscores'' = Some (String_nat n)"
  by (simp add: createInputFor_def getAttribute_def)

lemma filter_isElement_pieces:
  "filter isElement (concat (map piece_nodes ms)) = map piece_field ms"
  by (induction ms)
    (auto simp: piece_nodes_def piece_field_def isElement_def createInputFor_def)

lemma replicate_5: "replicate 5 x = [x, x, x, x, x]"
  by (simp add: eval_nat_numeral)

lemma replicate_4: "replicate 4 x = [x, x, x, x]"
  by (simp add: eval_nat_numeral)

lemma get_node_update_at:
  "get_node d n \<noteq> None \<Longrightarrow> get_node (update_at d n f) n = Some (f (the (get_node d n)))"
proof (induction d n f rule: update_at.induct)
  case (1 n f)
  then show ?case by simp
next
  case (2 v i p f)
  then show ?case by simp
next
  case (3 t c a s cs i p f)
  then show ?case by (simp split: if_splits)
qed

lemma get_node_replaceChild:
  "get_node d n \<noteq> None \<Longrightarrow> get_node (replaceChild d n w) n = Some w"
  by (simp add: replaceChild_def get_node_update_at)

lemma replaceInTextNode_no_faults:
  assumes "get_node d n = Some (Text tx)" and "n \<noteq> []"
  shows "replaceInTextNode no_faults d n =
     (case wrapper_for tx of None \<Rightarrow> Inr (d, False)
      | Some w \<Rightarrow> Inr (replaceChild d n w, True))"
  using assms by (simp add: replaceInTextNode_def no_faults_def split: option.splits)

lemma example_wrapper:
  "wrapper_for (js ''Name: _____ Date: ______'') =
     Some (Element ''SPAN'' [WRAPPER_CLASS] [(''data-original'', js ''Name: _____ Date: ______'')] []
       [Text (js ''Name''), Text (js '': ''), createInputFor 5,
        Text (js '' Date''), Text (js '': ''), createInputFor 6])"
proof -
  have s5: "Suc (Suc (Suc (Suc (Suc 0)))) = 5" and s6: "Suc (Suc (Suc (Suc (Suc (Suc 0))))) = 6"
    by simp_all
  show ?thesis
    by (simp add: wrapper_for_def replace_loop.simps exec_def match_here_def js_def COLON_def
        UNDERSCORE_def isWhiteSpace_def slice_def slice_from_def createTextNode_def Let_def)
      (simp add: s5 s6)
qed

lemma input_width_5: "map_of (style (createInputFor 5)) ''width'' = Some (js ''5ch'')"
  by (simp add: createInputFor_width String_nat.simps js_def)

lemma input_width_6: "map_of (style (createInputFor 6)) ''width'' = Some (js ''6ch'')"
  by (simp add: createInputFor_width String_nat.simps js_def)

lemma example_merge:
  "merge_text [Text (js ''Name''), Text (js '': ''), createInputFor 5,
        Text (js '' Date''), Text (js '': ''), createInputFor 6] =
   [Text (js ''Name: ''), createInputFor 5, Text (js '' Date: ''), createInputFor 6]"
  by (simp add: js_def createInputFor_def)

section \<open>Scan and Revert as changes at paths\<close>

lemma update_all_simps [simp]:
  "update_all f [] d = d"
  "update_all f (p # ps) d = update_all f ps (update_at d p f)"
  "update_all f (ps @ qs) d = update_all f qs (update_all f ps d)"
  by (simp_all add: update_all_def)

lemma get_node_append:
  "get_node d (r @ p) = (case get_node d r of None \<Rightarrow> None | Some rn \<Rightarrow> get_node rn p)"
  by (induction d r rule: get_node.induct) auto

lemma update_at_invalid: "get_node d p = None \<Longrightarrow> update_at d p f = d"
  by (induction d p f rule: update_at.induct) (auto split: if_splits)

lemma update_at_same: "get_node d p = Some x \<Longrightarrow> f x = x \<Longrightarrow> update_at d p f = d"
  by (induction d p f rule: update_at.induct) (auto split: if_splits)

lemma update_at_cong:
  "get_node d p = Some x \<Longrightarrow> f x = g x \<Longrightarrow> update_at d p f = update_at d p g"
  by (induction d p f rule: update_at.induct) (auto split: if_splits)

lemma get_node_update_at_text:
  "get_node d q = Some (Text v) \<Longrightarrow> \<not> prefix p q \<Longrightarrow>
     get_node (update_at d p f) q = Some (Text v)"
proof (induction d p f arbitrary: q rule: update_at.induct)
  case (1 n f)
  then show ?case by simp
next
  case (2 v i p f)
  then show ?case by simp
next
  case (3 t c a s cs i p f)
  show ?case
  proof (cases q)
    case Nil
    with 3 show ?thesis by simp
  next
    case (Cons j q')
    show ?thesis
    proof (cases "i < length cs")
      case True
      show ?thesis
      proof (cases "j = i")
        case True
        with 3 Cons \<open>i < length cs\<close> show ?thesis by simp
      next
        case False
        with 3 Cons \<open>i < length cs\<close> show ?thesis by (simp split: if_splits)
      qed
    next
      case False
      with 3 Cons show ?thesis by simp
    qed
  qed
qed

lemma get_node_update_all_text:
  "get_node d q = Some (Text v) \<Longrightarrow> \<forall>p\<in>set ps. \<not> prefix p q \<Longrightarrow>
     get_node (update_all f ps d) q = Some (Text v)"
  by (induction ps arbitrary: d) (auto simp: get_node_update_at_text)

lemma get_node_below_text:
  "get_node d p = Some (Text v) \<Longrightarrow> x \<noteq> [] \<Longrightarrow> get_node d (p @ x) = None"
  by (cases x) (simp_all add: get_node_append)

lemma replaceInTextNode_cases:
  assumes "n \<noteq> []"
  shows "(\<exists>e. replace_fault H n = Some e \<and> replaceInTextNode H d n = Inl e)
       \<or> (replace_fault H n = None
          \<and> (\<exists>b. replaceInTextNode H d n = Inr (update_at d n replaced_node, b)))"
proof (cases "replace_fault H n")
  case (Some e)
  then show ?thesis by (simp add: replaceInTextNode_def)
next
  case None
  show ?thesis
  proof (cases "get_node d n")
    case gn: None
    then show ?thesis using None by (auto simp: replaceInTextNode_def update_at_invalid)
  next
    case gn: (Some x)
    show ?thesis
    proof (cases x)
      case (Text tx)
      show ?thesis
      proof (cases "wrapper_for tx")
        case wn: None
        have "update_at d n replaced_node = d"
          using gn by (rule update_at_same) (simp add: replaced_node_def Text wn)
        then show ?thesis using None gn Text wn by (auto simp: replaceInTextNode_def)
      next
        case ws: (Some w)
        have "update_at d n replaced_node = update_at d n (\<lambda>_. w)"
          using gn by (rule update_at_cong) (simp add: replaced_node_def Text ws)
        then show ?thesis
          using None gn Text ws assms by (auto simp: replaceInTextNode_def replaceChild_def)
      qed
    next
      case (Element t c a s cs)
      have "update_at d n replaced_node = d"
        using gn by (rule update_at_same) (simp add: replaced_node_def Element)
      then show ?thesis using None gn Element by (auto simp: replaceInTextNode_def)
    qed
  qed
qed

lemma replace_each_prefix:
  "\<forall>p\<in>set ps. p \<noteq> [] \<Longrightarrow>
     replace_each H ps d = Inr (update_all replaced_node ps d)
   \<or> (\<exists>e k. k < length ps \<and> replace_fault H (ps ! k) = Some e
        \<and> replace_each H ps d = Inl (e, update_all replaced_node (take k ps) d))"
proof (induction ps arbitrary: d)
  case Nil
  then show ?case by simp
next
  case (Cons p ps)
  then have p: "p \<noteq> []" and ps: "\<forall>p\<in>set ps. p \<noteq> []" by simp_all
  from replaceInTextNode_cases [OF p, of H d]
  show ?case
  proof
    assume "\<exists>e. replace_fault H p = Some e \<and> replaceInTextNode H d p = Inl e"
    then obtain e where "replace_fault H p = Some e" "replaceInTextNode H d p = Inl e" by blast
    then have "0 < length (p # ps) \<and> replace_fault H ((p # ps) ! 0) = Some e
        \<and> replace_each H (p # ps) d = Inl (e, update_all replaced_node (take 0 (p # ps)) d)"
      by simp
    then show ?thesis by blast
  next
    assume "replace_fault H p = None
          \<and> (\<exists>b. replaceInTextNode H d p = Inr (update_at d p replaced_node, b))"
    then obtain b where b: "replaceInTextNode H d p = Inr (update_at d p replaced_node, b)"
      by blast
    from Cons.IH [OF ps, of "update_at d p replaced_node"]
    show ?thesis
    proof
      assume "replace_each H ps (update_at d p replaced_node) =
          Inr (update_all replaced_node ps (update_at d p replaced_node))"
      then show ?thesis by (simp add: b)
    next
      assume "\<exists>e k. k < length ps \<and> replace_fault H (ps ! k) = Some e
        \<and> replace_each H ps (update_at d p replaced_node) =
            Inl (e, update_all replaced_node (take k ps) (update_at d p replaced_node))"
      then obtain e k where k: "k < length ps" "replace_fault H (ps ! k) = Some e"
        "replace_each H ps (update_at d p replaced_node) =
            Inl (e, update_all replaced_node (take k ps) (update_at d p replaced_node))"
        by blast
      then have "Suc k < length (p # ps) \<and> replace_fault H ((p # ps) ! Suc k) = Some e
        \<and> replace_each H (p # ps) d = Inl (e, update_all replaced_node (take (Suc k) (p # ps)) d)"
        by (simp add: b)
      then show ?thesis by blast
    qed
  qed
qed

lemma replace_each_no_faults:
  "\<forall>p\<in>set ps. p \<noteq> [] \<Longrightarrow> replace_each no_faults ps d = Inr (update_all replaced_node ps d)"
  using replace_each_prefix [of ps no_faults d] by (auto simp: no_faults_def)

lemma accepted_at_iff:
  "accepted_at n q \<longleftrightarrow>
     q \<noteq> [] \<and>
     (\<exists>t c a s cs v. get_node n (butlast q) = Some (Element t c a s cs)
        \<and> get_node n q = Some (Text v) \<and> acceptNode (Some t) v)"
  by (auto simp: accepted_at_def split: option.splits node.splits)

lemma accepted_at_child:
  "j < length cs \<Longrightarrow> accepted_at (cs ! j) q \<Longrightarrow> accepted_at (Element t c a s cs) (j # q)"
  by (auto simp: accepted_at_iff)

lemma accepted_at_text_child:
  "j < length cs \<Longrightarrow> cs ! j = Text v \<Longrightarrow> acceptNode (Some t) v \<Longrightarrow>
     accepted_at (Element t c a s cs) [j]"
  by (simp add: accepted_at_iff)

lemma walk_accepted:
  "q \<in> set (walk n) \<Longrightarrow> accepted_at n q"
  "q \<in> set (walk_children t i cs) \<Longrightarrow>
     \<exists>j q'. q = (i + j) # q' \<and> j < length cs
       \<and> (if q' = [] then \<exists>v. cs ! j = Text v \<and> acceptNode (Some t) v
           else accepted_at (cs ! j) q')"
proof (induction n and t i cs arbitrary: q and q rule: walk_walk_children.induct)
  case (1 v)
  then show ?case by simp
next
  case (2 t c a s cs)
  from 2(2) have "q \<in> set (walk_children t 0 cs)" by simp
  from 2(1) [OF this] obtain j q' where q: "q = j # q'" "j < length cs"
    and d: "if q' = [] then \<exists>v. cs ! j = Text v \<and> acceptNode (Some t) v
           else accepted_at (cs ! j) q'"
    by auto
  show ?case
  proof (cases "q' = []")
    case True
    with q d show ?thesis by (auto intro: accepted_at_text_child)
  next
    case False
    with q d show ?thesis by (auto intro: accepted_at_child)
  qed
next
  case (3 t i)
  then show ?case by simp
next
  case (4 t i ch rest)
  from 4(3) have "q \<in> set (case ch of Text v \<Rightarrow> if acceptNode (Some t) v then [[i]] else []
        | Element t' c' a' s' cs' \<Rightarrow> map ((#) i) (walk ch))
      \<or> q \<in> set (walk_children t (Suc i) rest)" by simp
  then show ?case
  proof
    assume h: "q \<in> set (case ch of Text v \<Rightarrow> if acceptNode (Some t) v then [[i]] else []
        | Element t' c' a' s' cs' \<Rightarrow> map ((#) i) (walk ch))"
    show ?thesis
    proof (cases ch)
      case (Text v)
      with h have "q = [i]" "acceptNode (Some t) v" by (auto split: if_splits)
      with Text show ?thesis by (intro exI [of _ 0] exI [of _ "[]"]) simp
    next
      case (Element t' c' a' s' cs')
      with h obtain q' where q': "q = i # q'" "q' \<in> set (walk ch)" by auto
      from 4(1) [OF Element q'(2)] have a: "accepted_at ch q'" .
      then have "q' \<noteq> []" by (simp add: accepted_at_iff)
      with a q' show ?thesis by (intro exI [of _ 0] exI [of _ q']) simp
    qed
  next
    assume "q \<in> set (walk_children t (Suc i) rest)"
    from 4(2) [OF this] obtain j q' where "q = (Suc i + j) # q'" "j < length rest"
      "if q' = [] then \<exists>v. rest ! j = Text v \<and> acceptNode (Some t) v
           else accepted_at (rest ! j) q'" by blast
    then show ?thesis by (intro exI [of _ "Suc j"] exI [of _ q']) simp
  qed
qed

lemma accepted_at_append:
  "get_node d r = Some rn \<Longrightarrow> accepted_at rn q \<Longrightarrow> accepted_at d (r @ q)"
  by (simp add: accepted_at_iff butlast_append get_node_append)

lemma walk_nonempty: "q \<in> set (walk n) \<Longrightarrow> q \<noteq> []"
  using walk_accepted(1) [of q n] by (simp add: accepted_at_iff)

lemma acceptNode_not_exempt: "acceptNode (Some t) v \<Longrightarrow> toLowerCase t \<notin> set EXEMPT"
  by (auto simp: acceptNode_def Let_def split: if_splits)

lemma acceptNode_test: "acceptNode p v \<Longrightarrow> test v"
  by (auto simp: acceptNode_def Let_def split: if_splits option.splits)

lemma scan_try_cases:
  "scan_try H root d = Inl (TypeError, d) \<and> (root = None \<or> (\<exists>r. root = Some r \<and> get_node d r = None))
   \<or> (\<exists>e. scan_try H root d = Inl (e, d) \<and> walker_fault H = Some e)
   \<or> (\<exists>r rn. root = Some r \<and> get_node d r = Some rn \<and> walker_fault H = None
        \<and> (scan_try H root d = Inr (update_all replaced_node (map ((@) r) (walk rn)) d)
           \<or> (\<exists>e k. k < length (walk rn)
                \<and> replace_fault H (map ((@) r) (walk rn) ! k) = Some e
                \<and> scan_try H root d =
                    Inl (e, update_all replaced_node (take k (map ((@) r) (walk rn))) d))))"
proof (cases root)
  case None
  then show ?thesis by (simp add: scan_try_def)
next
  case (Some r)
  show ?thesis
  proof (cases "get_node d r")
    case None
    with Some show ?thesis by (simp add: scan_try_def)
  next
    case gn: (Some rn)
    show ?thesis
    proof (cases "walker_fault H")
      case (Some e)
      with \<open>root = Some r\<close> gn show ?thesis by (simp add: scan_try_def)
    next
      case None
      have ne: "\<forall>p\<in>set (map ((@) r) (walk rn)). p \<noteq> []" by (auto dest: walk_nonempty)
      have st: "scan_try H root d = replace_each H (map ((@) r) (walk rn)) d"
        using \<open>root = Some r\<close> gn None by (simp add: scan_try_def)
      from replace_each_prefix [OF ne, of H d] \<open>root = Some r\<close> gn None
      show ?thesis unfolding st by auto
    qed
  qed
qed

lemmas dom_eval = scan_def scan_try_def document_body_def document_head_def is_tag_def
  toLowerCase_def acceptNode_def EXEMPT_def replaceInTextNode_def no_faults_def
  replaceChild_def

lemma wrapper_a5:
  "wrapper_for (js ''a: _____'') =
     Some (Element ''SPAN'' [WRAPPER_CLASS] [(''data-original'', js ''a: _____'')] []
       [Text (js ''a''), Text (js '': ''), createInputFor 5])"
proof -
  have h1: "list_all isWhiteSpace (js '' '')" by (simp add: js_eval)
  have h2: "COLON \<notin> set (js ''a'')" by (simp add: js_eval)
  have h4: "\<not> starts_with_underscore []" by (simp add: starts_with_underscore_def)
  have e5: "js ''a'' @ COLON # js '' '' @ replicate 5 UNDERSCORE @ [] = js ''a: _____''"
    by (simp add: js_eval replicate_5)
  have n: "js ''a'' \<noteq> []" "COLON # js '' '' = js '': ''" by (simp_all add: js_eval)
  from single_match_wrapper [where sp = "js '' ''" and pre = "js ''a''" and post = "[]" and k = 5]
    h1 h2 h4
  show ?thesis unfolding e5 by (simp add: n)
qed

lemma test_a5: "test (js ''a: _____'')"
  using wrapper_a5 wrapper_for_None [of "js ''a: _____''"] by auto

lemma trim_a5: "trim (js ''a: _____'') \<noteq> []" "js ''a: _____'' \<noteq> []"
  by (simp_all add: trim_def js_eval)

section \<open>Revert as a tree transformation\<close>

lemma revert_children_map: "revert_children cs = map revert_tree cs"
  by (induction cs) simp_all

lemma update_all_child:
  "i < length cs \<Longrightarrow>
     update_all f (map ((#) i) ps) (Element t c a s cs) =
     Element t c a s (cs[i := update_all f ps (cs ! i)])"
  by (induction ps arbitrary: cs) simp_all

lemma update_all_text:
  "\<forall>p\<in>set ps. p \<noteq> [] \<Longrightarrow> update_all f ps (Text v) = Text v"
proof (induction ps)
  case Nil
  then show ?case by simp
next
  case (Cons p ps)
  then obtain i q where "p = i # q" by (cases p) auto
  with Cons show ?case by simp
qed

lemma querySelectorAll_children_nonempty:
  "p \<in> set (querySelectorAll_children i cs) \<Longrightarrow> p \<noteq> []"
  by (induction cs arbitrary: i) auto

lemma update_all_querySelectorAll:
  "update_all reverted_node (querySelectorAll n) n = revert_tree n"
  "\<forall>t c a s pre. length pre = i \<longrightarrow>
     update_all reverted_node (querySelectorAll_children i cs) (Element t c a s (pre @ cs)) =
     Element t c a s (pre @ revert_children cs)"
proof (induction n and i cs rule: querySelectorAll_querySelectorAll_children.induct)
  case (1 v)
  show ?case by simp
next
  case (2 t c a s cs)
  let ?e = "Element t c a s cs"
  from 2 have ch: "update_all reverted_node (querySelectorAll_children 0 cs) ?e =
      Element t c a s (revert_children cs)"
    by (metis append_Nil list.size(3))
  show ?case
  proof (cases "matches_wrapper ?e")
    case False
    then show ?thesis by (simp add: ch revertible_def)
  next
    case True
    show ?thesis
    proof (cases "getAttribute ?e ''data-original''")
      case None
      then have "reverted_node ?e = ?e" by (simp add: reverted_node_def)
      with True None show ?thesis by (simp add: ch revertible_def)
    next
      case (Some original)
      then have r: "reverted_node ?e = Text original"
        by (simp add: reverted_node_def createTextNode_def)
      have "update_all reverted_node (querySelectorAll_children 0 cs) (Text original) =
          Text original"
        by (rule update_all_text) (auto dest: querySelectorAll_children_nonempty)
      with True Some r show ?thesis by (simp add: revertible_def)
    qed
  qed
next
  case (3 i)
  show ?case by simp
next
  case (4 i ch rest)
  show ?case
  proof (intro allI impI)
    fix t c a s and pre :: "node list"
    assume len: "length pre = i"
    have "update_all reverted_node (map ((#) i) (querySelectorAll ch))
        (Element t c a s (pre @ ch # rest)) =
        Element t c a s ((pre @ ch # rest)[i := revert_tree ch])"
      using len by (simp add: update_all_child 4(1) nth_append)
    also have "(pre @ ch # rest)[i := revert_tree ch] = (pre @ [revert_tree ch]) @ rest"
      unfolding len [symmetric] by simp
    finally have first: "update_all reverted_node (map ((#) i) (querySelectorAll ch))
        (Element t c a s (pre @ ch # rest)) =
        Element t c a s ((pre @ [revert_tree ch]) @ rest)" .
    have "length (pre @ [revert_tree ch]) = Suc i" using len by simp
    from 4(2) [rule_format, OF this]
    have "update_all reverted_node (querySelectorAll_children (Suc i) rest)
        (Element t c a s ((pre @ [revert_tree ch]) @ rest)) =
        Element t c a s ((pre @ [revert_tree ch]) @ revert_children rest)" .
    with first show "update_all reverted_node (querySelectorAll_children i (ch # rest))
        (Element t c a s (pre @ ch # rest)) =
        Element t c a s (pre @ revert_children (ch # rest))"
      by simp
  qed
qed

lemma revert_each_update_all:
  "\<forall>p\<in>set ws. p \<noteq> [] \<Longrightarrow> revert_each ws d = Inr (update_all reverted_node ws d)"
proof (induction ws arbitrary: d)
  case Nil
  show ?case by simp
next
  case (Cons w ws)
  then have w: "w \<noteq> []" and ws: "\<forall>p\<in>set ws. p \<noteq> []" by simp_all
  have "revert_each (w # ws) d = revert_each ws (update_at d w reverted_node)"
  proof (cases "get_node d w")
    case None
    then show ?thesis by (simp add: update_at_invalid)
  next
    case (Some n)
    show ?thesis
    proof (cases "getAttribute n ''data-original''")
      case None
      have "update_at d w reverted_node = d"
        using Some by (rule update_at_same) (simp add: reverted_node_def None)
      with Some None show ?thesis by simp
    next
      case so: (Some original)
      have "update_at d w reverted_node = update_at d w (\<lambda>_. createTextNode original)"
        using Some by (rule update_at_cong) (simp add: reverted_node_def so)
      with Some so w show ?thesis by (simp add: replaceChild_def)
    qed
  qed
  with Cons.IH [OF ws] show ?case by simp
qed

lemma not_revertible_text [simp]: "\<not> revertible (Text v)"
  by (simp add: revertible_def matches_wrapper_def)

lemma afterPrint_revert_tree:
  "afterPrint st =
     (if revertible (document st) then Inl HierarchyRequestError
      else Inr (st\<lparr>document := revert_tree (document st)\<rparr>))"
proof (cases "document st")
  case (Text v)
  then show ?thesis by (simp add: afterPrint_def)
next
  case (Element t c a s cs)
  let ?e = "Element t c a s cs"
  let ?qc = "querySelectorAll_children 0 cs"
  have ne: "\<forall>p\<in>set ?qc. p \<noteq> []" by (auto dest: querySelectorAll_children_nonempty)
  have rest: "revert_each ?qc ?e = Inr (update_all reverted_node ?qc ?e)"
    using ne by (rule revert_each_update_all)
  note full = update_all_querySelectorAll(1) [of ?e]
  show ?thesis
  proof (cases "matches_wrapper ?e")
    case False
    with rest full show ?thesis by (simp add: afterPrint_def Element revertible_def)
  next
    case True
    show ?thesis
    proof (cases "getAttribute ?e ''data-original''")
      case None
      then have "reverted_node ?e = ?e" by (simp add: reverted_node_def)
      with True None rest full show ?thesis
        by (simp add: afterPrint_def Element revertible_def)
    next
      case (Some original)
      with True show ?thesis by (simp add: afterPrint_def Element revertible_def)
    qed
  qed
qed

lemma revert_tree_no_wrappers: "querySelectorAll n = [] \<Longrightarrow> revert_tree n = n"
  using update_all_querySelectorAll(1) [of n] by simp

lemma no_wrappers_not_revertible: "querySelectorAll n = [] \<Longrightarrow> \<not> revertible n"
  by (cases n) (auto simp: revertible_def matches_wrapper_def split: if_splits)

lemma wrapper_for_revertible:
  assumes "wrapper_for tx = Some w"
  shows "matches_wrapper w" and "getAttribute w ''data-original'' = Some tx"
    and "tagName w = ''SPAN''" and "classList w = [WRAPPER_CLASS]"
proof -
  from assms have t: "test tx" using wrapper_for_None [of tx] by (cases "test tx") auto
  from wrapper_for_Some [OF t] assms obtain cs where
    w: "w = Element ''SPAN'' [WRAPPER_CLASS] [(''data-original'', tx)] [] cs" by auto
  show "matches_wrapper w" by (simp add: w matches_wrapper_def toLowerCase_def)
  show "getAttribute w ''data-original'' = Some tx" by (simp add: w getAttribute_def)
  show "tagName w = ''SPAN''" "classList w = [WRAPPER_CLASS]" by (simp_all add: w)
qed

lemma revert_tree_replaced_node: "revert_tree (replaced_node n) = revert_tree n"
proof (cases n)
  case (Text tx)
  show ?thesis
  proof (cases "wrapper_for tx")
    case None
    with Text show ?thesis by (simp add: replaced_node_def)
  next
    case (Some w)
    note r = wrapper_for_revertible [OF Some]
    obtain t c a s cs where w: "w = Element t c a s cs" using r(1)
      by (cases w) (auto simp: matches_wrapper_def)
    have "revert_tree w = Text tx"
      using r(1,2) by (simp add: w revertible_def reverted_node_def createTextNode_def)
    with Text Some show ?thesis by (simp add: replaced_node_def)
  qed
next
  case (Element t c a s cs)
  then show ?thesis by (simp add: replaced_node_def)
qed

lemma revertible_same_head:
  "revertible (Element t c a s cs) = revertible (Element t c a s cs')"
  by (simp add: revertible_def matches_wrapper_def getAttribute_def)

lemma reverted_node_same_head:
  "revertible (Element t c a s cs) \<Longrightarrow>
     reverted_node (Element t c a s cs) = reverted_node (Element t c a s cs')"
  by (auto simp: reverted_node_def getAttribute_def revertible_def split: option.splits)

lemma revert_tree_update_at:
  "revert_tree (update_at d p replaced_node) = revert_tree d"
proof (induction d p "replaced_node" rule: update_at.induct)
  case (1 n)
  show ?case by (simp add: revert_tree_replaced_node)
next
  case (2 v i p)
  show ?case by simp
next
  case (3 t c a s cs i p)
  show ?case
  proof (cases "i < length cs")
    case False
    then show ?thesis by simp
  next
    case True
    let ?cs' = "cs[i := update_at (cs ! i) p replaced_node]"
    have "map revert_tree ?cs' = map revert_tree cs"
      using True 3 by (simp add: map_update list_update_same_conv)
    then have ch: "revert_children ?cs' = revert_children cs"
      by (simp add: revert_children_map)
    show ?thesis
    proof (cases "revertible (Element t c a s cs)")
      case r: True
      with revertible_same_head [of t c a s cs ?cs'] reverted_node_same_head [OF r, of ?cs'] True
      show ?thesis by simp
    next
      case r: False
      with revertible_same_head [of t c a s cs ?cs'] True ch show ?thesis by simp
    qed
  qed
qed

lemma revert_tree_update_all:
  "revert_tree (update_all replaced_node ps d) = revert_tree d"
  by (induction ps arbitrary: d) (simp_all add: revert_tree_update_at)

lemma revertible_update_at: "p \<noteq> [] \<Longrightarrow> revertible (update_at d p f) = revertible d"
proof (cases p)
  case Nil
  assume "p \<noteq> []"
  with Nil show ?thesis by simp
next
  case (Cons i q)
  show ?thesis
  proof (cases d)
    case (Text v)
    with Cons show ?thesis by simp
  next
    case (Element t c a s cs)
    with Cons show ?thesis
      by (simp add: revertible_def matches_wrapper_def getAttribute_def)
  qed
qed

lemma revertible_update_all:
  "\<forall>p\<in>set ps. p \<noteq> [] \<Longrightarrow> revertible (update_all f ps d) = revertible d"
  by (induction ps arbitrary: d) (simp_all add: revertible_update_at)

lemma scan_document:
  "\<exists>st1 ps. scan H root st = Inr st1 \<and> document st1 = update_all replaced_node ps (document st)
     \<and> (\<forall>p\<in>set ps. p \<noteq> []) \<and> timers st1 = timers st"
proof -
  define d where "d = document st"
  from scan_try_cases [of H root d] consider
      (early) e where "scan_try H root d = Inl (e, d)"
    | (full) r rn where "scan_try H root d =
          Inr (update_all replaced_node (map ((@) r) (walk rn)) d)"
    | (part) r rn e k where "scan_try H root d =
            Inl (e, update_all replaced_node (take k (map ((@) r) (walk rn))) d)"
    by blast
  then show ?thesis
  proof cases
    case early
    then have "\<exists>st1. scan H root st = Inr st1 \<and> document st1 = update_all replaced_node [] d
        \<and> timers st1 = timers st"
      by (simp add: scan_def d_def)
    then show ?thesis unfolding d_def by fastforce
  next
    case full
    have ne: "\<forall>p\<in>set (map ((@) r) (walk rn)). p \<noteq> []" by (auto dest: walk_nonempty)
    from full have "\<exists>st1. scan H root st = Inr st1
        \<and> document st1 = update_all replaced_node (map ((@) r) (walk rn)) d
        \<and> timers st1 = timers st"
      by (simp add: scan_def d_def)
    with ne show ?thesis unfolding d_def by blast
  next
    case part
    have ne: "\<forall>p\<in>set (take k (map ((@) r) (walk rn))). p \<noteq> []"
      by (auto dest!: in_set_takeD dest: walk_nonempty)
    from part have "\<exists>st1. scan H root st = Inr st1
        \<and> document st1 = update_all replaced_node (take k (map ((@) r) (walk rn))) d
        \<and> timers st1 = timers st"
      by (simp add: scan_def d_def)
    with ne show ?thesis unfolding d_def by blast
  qed
qed

lemma update_at_update_at:
  "update_at (update_at d p f) p g = update_at d p (\<lambda>x. g (f x))"
  by (induction d p f rule: update_at.induct) simp_all

lemma no_wrappers_two_paragraphs: "querySelectorAll two_paragraphs = []"
  by (simp add: two_paragraphs_def matches_wrapper_def toLowerCase_def)

lemma get_node_revert_tree:
  "get_node d p = Some e \<Longrightarrow>
   \<forall>k<length p. \<forall>n. get_node d (take k p) = Some n \<longrightarrow> \<not> revertible n \<Longrightarrow>
   get_node (revert_tree d) p = Some (revert_tree e)"
proof (induction d p arbitrary: e rule: get_node.induct)
  case (1 n)
  then show ?case by simp
next
  case (2 v i p)
  then show ?case by simp
next
  case (3 t c a s cs i p)
  from 3(2) have i: "i < length cs" and g: "get_node (cs ! i) p = Some e"
    by (simp_all split: if_splits)
  from 3(3) have nr: "\<not> revertible (Element t c a s cs)" by fastforce
  have sub: "\<forall>k<length p. \<forall>n. get_node (cs ! i) (take k p) = Some n \<longrightarrow> \<not> revertible n"
  proof (intro allI impI)
    fix k n assume k: "k < length p" and n: "get_node (cs ! i) (take k p) = Some n"
    from k have "Suc k < length (i # p)" by simp
    moreover from n i have "get_node (Element t c a s cs) (take (Suc k) (i # p)) = Some n"
      by simp
    ultimately show "\<not> revertible n" using 3(3) by blast
  qed
  from 3(1) [OF i g sub] nr i show ?case by (simp add: revert_children_map)
qed

section \<open>Scan as a tree transformation\<close>

lemma update_all_walk:
  "update_all replaced_node (walk n) n = scan_tree n"
  "\<forall>c a s pre. length pre = i \<longrightarrow>
     update_all replaced_node (walk_children t i cs) (Element t c a s (pre @ cs)) =
     Element t c a s (pre @ scan_children t cs)"
proof (induction n and t i cs rule: walk_walk_children.induct)
  case (1 v)
  show ?case by simp
next
  case (2 t c a s cs)
  from 2 [rule_format, of "[]" c a s] show ?case by simp
next
  case (3 t i)
  show ?case by simp
next
  case (4 t i ch rest)
  show ?case
  proof (intro allI impI)
    fix c a s and pre :: "node list"
    assume len: "length pre = i"
    define ch' where "ch' = (case ch of
        Text v \<Rightarrow> if acceptNode (Some t) v then replaced_node ch else ch
      | Element t' c' a' s' cs' \<Rightarrow> scan_tree ch)"
    have upd: "(pre @ ch # rest)[i := x] = (pre @ [x]) @ rest" for x
      unfolding len [symmetric] by simp
    have nth: "(pre @ ch # rest) ! i = ch" unfolding len [symmetric] by simp
    have ilt: "i < length (pre @ ch # rest)" using len by simp
    have first: "update_all replaced_node
        (case ch of Text v \<Rightarrow> if acceptNode (Some t) v then [[i]] else []
         | Element t' c' a' s' cs' \<Rightarrow> map ((#) i) (walk ch))
        (Element t c a s (pre @ ch # rest)) = Element t c a s ((pre @ [ch']) @ rest)"
    proof (cases ch)
      case (Text v)
      show ?thesis
      proof (cases "acceptNode (Some t) v")
        case True
        have "update_all replaced_node [[i]] (Element t c a s (pre @ ch # rest)) =
            Element t c a s ((pre @ ch # rest)[i := replaced_node ((pre @ ch # rest) ! i)])"
          using ilt by simp
        also have "\<dots> = Element t c a s ((pre @ [replaced_node ch]) @ rest)"
          by (simp only: nth upd)
        finally show ?thesis using Text True by (simp add: ch'_def)
      next
        case False
        with Text show ?thesis by (simp add: ch'_def)
      qed
    next
      case (Element t' c' a' s' cs')
      have "update_all replaced_node (map ((#) i) (walk ch)) (Element t c a s (pre @ ch # rest)) =
          Element t c a s ((pre @ ch # rest)
            [i := update_all replaced_node (walk ch) ((pre @ ch # rest) ! i)])"
        using ilt by (rule update_all_child)
      also have "\<dots> = Element t c a s ((pre @ [scan_tree ch]) @ rest)"
        by (simp only: nth upd 4(1) [OF Element])
      finally show ?thesis using Element by (simp add: ch'_def)
    qed
    have "length (pre @ [ch']) = Suc i" using len by simp
    from 4(2) [rule_format, OF this]
    have "update_all replaced_node (walk_children t (Suc i) rest)
        (Element t c a s ((pre @ [ch']) @ rest)) =
        Element t c a s ((pre @ [ch']) @ scan_children t rest)" .
    with first show "update_all replaced_node (walk_children t i (ch # rest))
        (Element t c a s (pre @ ch # rest)) =
        Element t c a s (pre @ scan_children t (ch # rest))"
      by (simp add: ch'_def)
  qed
qed

lemma update_all_prefix:
  "get_node d r = Some rn \<Longrightarrow>
     update_all f (map ((@) r) ps) d = update_at d r (\<lambda>x. update_all f ps x)"
proof (induction d r arbitrary: rn rule: get_node.induct)
  case (1 n)
  then show ?case by simp
next
  case (2 v i p)
  then show ?case by simp
next
  case (3 t c a s cs i p)
  then have i: "i < length cs" and g: "get_node (cs ! i) p = Some rn"
    by (simp_all split: if_splits)
  have m: "map ((@) (i # p)) ps = map ((#) i) (map ((@) p) ps)" by simp
  have "update_all f (map ((@) (i # p)) ps) (Element t c a s cs) =
      update_all f (map ((#) i) (map ((@) p) ps)) (Element t c a s cs)"
    by (simp only: m)
  also have "\<dots> = Element t c a s (cs[i := update_all f (map ((@) p) ps) (cs ! i)])"
    using i by (rule update_all_child)
  also have "\<dots> = Element t c a s (cs[i := update_at (cs ! i) p (\<lambda>x. update_all f ps x)])"
    by (simp only: 3(1) [OF i g])
  also have "\<dots> = update_at (Element t c a s cs) (i # p) (\<lambda>x. update_all f ps x)"
    using i by simp
  finally show ?case .
qed

lemma scan_no_faults:
  assumes "get_node (document st) r = Some rn"
  shows "scan no_faults (Some r) st = Inr (st\<lparr>document := update_at (document st) r scan_tree\<rparr>)"
proof -
  have ne: "\<forall>p\<in>set (map ((@) r) (walk rn)). p \<noteq> []" by (auto dest: walk_nonempty)
  have "update_at (document st) r (\<lambda>x. update_all replaced_node (walk rn) x) =
      update_at (document st) r scan_tree"
    using assms by (rule update_at_cong) (simp add: update_all_walk(1))
  then have "update_all replaced_node (map ((@) r) (walk rn)) (document st) =
      update_at (document st) r scan_tree"
    using update_all_prefix [OF assms, of replaced_node "walk rn"] by simp
  with replace_each_no_faults [OF ne, of "document st"] assms
  show ?thesis by (simp add: scan_def scan_try_def no_faults_def)
qed

lemma walk_children_none:
  "\<forall>ch\<in>set cs. (case ch of Text v \<Rightarrow> \<not> test v | Element t' c' a' s' cs' \<Rightarrow> cs' = []) \<Longrightarrow>
     walk_children t i cs = []"
proof (induction cs arbitrary: i)
  case Nil
  show ?case by simp
next
  case (Cons ch rest)
  then show ?case by (cases ch) (auto dest: acceptNode_test)
qed

lemma walk_wrapper:
  assumes "wrapper_for tx = Some w"
  shows "walk w = []"
proof -
  from assms have t: "test tx" using wrapper_for_None [of tx] by (cases "test tx") auto
  from wrapper_for_Some [OF t] assms obtain ms rest where
    w: "w = Element ''SPAN'' [WRAPPER_CLASS] [(''data-original'', tx)] []
        (concat (map piece_nodes ms) @ (if rest \<noteq> [] then [Text rest] else []))"
    and ok: "list_all piece_ok ms" and nt: "\<not> test rest"
    by auto
  have "\<forall>ch\<in>set (concat (map piece_nodes ms) @ (if rest \<noteq> [] then [Text rest] else [])).
      (case ch of Text v \<Rightarrow> \<not> test v | Element t' c' a' s' cs' \<Rightarrow> cs' = [])"
    using ok nt
    by (auto simp: list_all_iff piece_ok_def piece_nodes_def createInputFor_def
        not_test_colon_spaces split: if_splits)
  then show ?thesis by (simp add: w walk_children_none)
qed

lemma walk_scan_tree:
  "walk (scan_tree n) = []"
  "walk_children t i (scan_children t cs) = []"
proof (induction n and t i cs rule: walk_walk_children.induct)
  case (1 v)
  show ?case by simp
next
  case (2 t c a s cs)
  then show ?case by simp
next
  case (3 t i)
  show ?case by simp
next
  case (4 t i ch rest)
  show ?case
  proof (cases ch)
    case (Text v)
    show ?thesis
    proof (cases "acceptNode (Some t) v")
      case True
      from acceptNode_test [OF True] wrapper_for_Some [of v]
      obtain w where w: "wrapper_for v = Some w" by blast
      from wrapper_for_revertible(1) [OF w] obtain t' c' a' s' cs' where
        e: "w = Element t' c' a' s' cs'" by (cases w) (auto simp: matches_wrapper_def)
      from walk_wrapper [OF w] Text True w 4(2) show ?thesis
        by (simp add: replaced_node_def e)
    next
      case False
      with Text 4(2) show ?thesis by simp
    qed
  next
    case (Element t' c' a' s' cs')
    with 4(1) [OF Element] 4(2) show ?thesis by simp
  qed
qed

section \<open>Style injection and repeated scans\<close>

lemma elements_with_id_Text [simp]: "elements_with_id (Text v) i = []"
  by (simp add: elements_with_id_def)

lemma elements_with_id_Element:
  "elements_with_id (Element t c a s cs) i =
     (if map_of a ''id'' = Some i then [t] else []) @ concat (map (\<lambda>ch. elements_with_id ch i) cs)"
proof -
  have "map tagName (filter (\<lambda>e. getAttribute e ''id'' = Some i) (concat (map elements cs))) =
      concat (map (\<lambda>ch. elements_with_id ch i) cs)"
    by (induction cs) (simp_all add: elements_with_id_def)
  then show ?thesis by (simp add: elements_with_id_def getAttribute_def)
qed

lemma getElementById_None_iff:
  "getElementById d i = None \<longleftrightarrow> elements_with_id d i = []"
  by (auto simp: getElementById_def elements_with_id_def find_None_iff filter_empty_conv)

lemma elements_with_id_update_at:
  assumes "\<And>x. elements_with_id (f x) i = elements_with_id x i"
  shows "elements_with_id (update_at d p f) i = elements_with_id d i"
  using assms
proof (induction d p f rule: update_at.induct)
  case (1 n f)
  then show ?case by simp
next
  case (2 v j p f)
  show ?case by simp
next
  case (3 t c a s cs j p f)
  show ?case
  proof (cases "j < length cs")
    case False
    then show ?thesis by simp
  next
    case True
    from 3(1) [OF True 3(2)]
    have "map (\<lambda>ch. elements_with_id ch i) (cs[j := update_at (cs ! j) p f]) =
        map (\<lambda>ch. elements_with_id ch i) cs"
      using True by (simp add: map_update list_update_same_conv)
    with True show ?thesis by (simp add: elements_with_id_Element)
  qed
qed

lemma elements_with_id_replaced_node:
  "elements_with_id (replaced_node x) i = elements_with_id x i"
proof (cases x)
  case (Text tx)
  show ?thesis
  proof (cases "wrapper_for tx")
    case None
    with Text show ?thesis by (simp add: replaced_node_def)
  next
    case (Some w)
    then have t: "test tx" using wrapper_for_None [of tx] by (cases "test tx") auto
    from wrapper_for_Some [OF t] Some obtain ms rest where
      w: "w = Element ''SPAN'' [WRAPPER_CLASS] [(''data-original'', tx)] []
        (concat (map piece_nodes ms) @ (if rest \<noteq> [] then [Text rest] else []))"
      by auto
    have p: "concat (map (\<lambda>ch. elements_with_id ch i) (piece_nodes pc)) = []" for pc
      by (cases pc) (simp add: piece_nodes_def createInputFor_def elements_with_id_Element)
    have "concat (map (\<lambda>ch. elements_with_id ch i) (concat (map piece_nodes ms))) = []"
      by (induction ms) (simp_all add: p)
    then have "elements_with_id w i = []"
      by (simp add: w elements_with_id_Element)
    with Text Some show ?thesis by (simp add: replaced_node_def)
  qed
next
  case (Element t c a s cs)
  then show ?thesis by (simp add: replaced_node_def)
qed

lemma elements_with_id_update_all:
  "elements_with_id (update_all replaced_node ps d) i = elements_with_id d i"
  by (induction ps arbitrary: d)
    (simp_all add: elements_with_id_update_at elements_with_id_replaced_node)

lemma concat_update_empty:
  "j < length xs \<Longrightarrow> \<forall>x\<in>set xs. x = [] \<Longrightarrow> concat (xs[j := v]) = v"
proof (induction xs arbitrary: j)
  case Nil
  then show ?case by simp
next
  case (Cons x xs)
  then show ?case by (cases j) (auto simp: concat_eq_Nil_conv)
qed

lemma elements_with_id_update_at_empty:
  "elements_with_id d i = [] \<Longrightarrow> get_node d p = Some x \<Longrightarrow>
     elements_with_id x i = [] \<and> elements_with_id (update_at d p f) i = elements_with_id (f x) i"
proof (induction d p f arbitrary: x rule: update_at.induct)
  case (1 n f)
  then show ?case by simp
next
  case (2 v j p f)
  then show ?case by simp
next
  case (3 t c a s cs j p f)
  from 3(3) have j: "j < length cs" and g: "get_node (cs ! j) p = Some x"
    by (simp_all split: if_splits)
  from 3(2) have own: "map_of a ''id'' \<noteq> Some i"
    and all: "\<forall>y\<in>set (map (\<lambda>ch. elements_with_id ch i) cs). y = []"
    by (auto simp: elements_with_id_Element split: if_splits)
  from all j have "elements_with_id (cs ! j) i = []" by simp
  from 3(1) [OF j this g] have x: "elements_with_id x i = []"
    and u: "elements_with_id (update_at (cs ! j) p f) i = elements_with_id (f x) i" by simp_all
  have "concat (map (\<lambda>ch. elements_with_id ch i) (cs[j := update_at (cs ! j) p f])) =
      elements_with_id (f x) i"
    using concat_update_empty [OF _ all, of j "elements_with_id (f x) i"] j
    by (simp add: map_update u)
  with x own j show ?case by (simp add: elements_with_id_Element)
qed

lemma first_index_Some:
  "first_index P xs = Some i \<Longrightarrow> i < length xs \<and> P (xs ! i)"
proof (induction xs arbitrary: i)
  case Nil
  then show ?case by simp
next
  case (Cons x xs)
  then show ?case by (cases "P x") auto
qed

lemma first_index_update:
  "j < length xs \<Longrightarrow> P y = P (xs ! j) \<Longrightarrow> first_index P (xs[j := y]) = first_index P xs"
proof (induction xs arbitrary: j)
  case Nil
  then show ?case by simp
next
  case (Cons x xs)
  then show ?case by (cases j) simp_all
qed

lemma document_head_Some:
  assumes "document_head d = Some h"
  shows "\<exists>i t c a s cs. h = [i] \<and> get_node d h = Some (Element t c a s cs)
     \<and> i < length (childNodes d) \<and> childNodes d ! i = Element t c a s cs
     \<and> is_tag [''head''] (Element t c a s cs) \<and> is_tag [''html''] d"
proof -
  from assms obtain i where h: "h = [i]" and html: "is_tag [''html''] d"
    and f: "first_index (is_tag [''head'']) (childNodes d) = Some i"
    by (auto simp: document_head_def split: if_splits)
  from first_index_Some [OF f] have i: "i < length (childNodes d)"
    and tg: "is_tag [''head''] (childNodes d ! i)" by simp_all
  from tg obtain t c a s cs where e: "childNodes d ! i = Element t c a s cs"
    by (cases "childNodes d ! i") (auto simp: is_tag_def)
  from html obtain t0 c0 a0 s0 cs0 where d: "d = Element t0 c0 a0 s0 cs0"
    by (cases d) (auto simp: is_tag_def)
  from h i e tg html d show ?thesis by auto
qed

lemma document_body_Some:
  "document_body d = Some r \<Longrightarrow> get_node d r \<noteq> None"
proof -
  assume a: "document_body d = Some r"
  then obtain i where r: "r = [i]" and html: "is_tag [''html''] d"
    and f: "first_index (is_tag [''body'', ''frameset'']) (childNodes d) = Some i"
    by (auto simp: document_body_def split: if_splits)
  from html obtain t0 c0 a0 s0 cs0 where d: "d = Element t0 c0 a0 s0 cs0"
    by (cases d) (auto simp: is_tag_def)
  from first_index_Some [OF f] r d show ?thesis by simp
qed

lemma is_tag_replaced_node:
  "''span'' \<notin> set names \<Longrightarrow> is_tag names (replaced_node x) = is_tag names x"
proof (cases x)
  case (Text tx)
  assume n: "''span'' \<notin> set names"
  show ?thesis
  proof (cases "wrapper_for tx")
    case None
    with Text show ?thesis by (simp add: replaced_node_def)
  next
    case (Some w)
    from wrapper_for_revertible(3) [OF Some] wrapper_for_revertible(1) [OF Some]
    have "is_tag names w = (''span'' \<in> set names)"
      by (cases w) (auto simp: is_tag_def matches_wrapper_def)
    with Text Some n show ?thesis by (simp add: replaced_node_def is_tag_def)
  qed
next
  case (Element t c a s cs)
  then show ?thesis by (simp add: replaced_node_def)
qed

lemma is_tag_update_at:
  assumes "''span'' \<notin> set names"
  shows "is_tag names (update_at d p replaced_node) = is_tag names d"
proof (cases p)
  case Nil
  with is_tag_replaced_node [OF assms, of d] show ?thesis by simp
next
  case (Cons i q)
  then show ?thesis by (cases d) (simp_all add: is_tag_def)
qed

lemma document_body_update_at:
  "document_body (update_at d p replaced_node) = document_body d"
proof (cases d)
  case (Text v)
  have "\<not> is_tag [''html''] (update_at d p replaced_node)"
    using is_tag_update_at [of "[''html'']" d p] Text by (simp add: is_tag_def)
  then show ?thesis using Text by (simp add: document_body_def is_tag_def)
next
  case (Element t c a s cs)
  show ?thesis
  proof (cases p)
    case Nil
    with Element show ?thesis by (simp add: replaced_node_def)
  next
    case (Cons i q)
    show ?thesis
    proof (cases "i < length cs")
      case False
      with Cons Element show ?thesis by simp
    next
      case True
      have "first_index (is_tag [''body'', ''frameset''])
          (cs[i := update_at (cs ! i) q replaced_node]) =
          first_index (is_tag [''body'', ''frameset'']) cs"
        using True by (intro first_index_update) (simp_all add: is_tag_update_at)
      with True Cons Element show ?thesis by (simp add: document_body_def is_tag_def)
    qed
  qed
qed

lemma document_body_update_all:
  "document_body (update_all replaced_node ps d) = document_body d"
  by (induction ps arbitrary: d) (simp_all add: document_body_update_at)

lemma elements_with_id_style_element:
  "elements_with_id style_element STYLE_ID = [''STYLE'']"
  by (simp add: style_element_def elements_with_id_Element createTextNode_def)

lemma ensureStyle_fresh:
  assumes "getElementById d STYLE_ID = None" and "document_head d = Some h"
  shows "ensureStyle d = Inr (appendChild d h style_element)"
    and "elements_with_id (appendChild d h style_element) STYLE_ID = [''STYLE'']"
proof -
  show "ensureStyle d = Inr (appendChild d h style_element)"
    using assms by (simp add: ensureStyle_def)
  from document_head_Some [OF assms(2)] obtain t c a s cs where
    g: "get_node d h = Some (Element t c a s cs)" by blast
  from assms(1) have e: "elements_with_id d STYLE_ID = []"
    by (simp add: getElementById_None_iff)
  let ?f = "\<lambda>n. case n of Text v \<Rightarrow> Text v
                | Element t c a s cs \<Rightarrow> Element t c a s (cs @ [style_element])"
  from elements_with_id_update_at_empty [OF e g, of ?f]
  have x: "elements_with_id (Element t c a s cs) STYLE_ID = []"
    and u: "elements_with_id (appendChild d h style_element) STYLE_ID =
        elements_with_id (Element t c a s (cs @ [style_element])) STYLE_ID"
    by (simp_all add: appendChild_def)
  from x have "elements_with_id (Element t c a s (cs @ [style_element])) STYLE_ID =
      elements_with_id style_element STYLE_ID"
    by (auto simp: elements_with_id_Element split: if_splits)
  with u show "elements_with_id (appendChild d h style_element) STYLE_ID = [''STYLE'']"
    by (simp add: elements_with_id_style_element)
qed

lemma ensureStyle_present:
  "elements_with_id d STYLE_ID \<noteq> [] \<Longrightarrow> ensureStyle d = Inr d"
  by (simp add: ensureStyle_def getElementById_None_iff)

lemma scan_after_scan:
  assumes "\<forall>r rn. root = Some r \<and> get_node (document st) r = Some rn \<longrightarrow> walk rn = []"
  shows "\<exists>st'. scan no_faults root st = Inr st' \<and> document st' = document st"
proof (cases root)
  case None
  then show ?thesis by (simp add: scan_def scan_try_def)
next
  case (Some r)
  show ?thesis
  proof (cases "get_node (document st) r")
    case None
    with Some show ?thesis by (simp add: scan_def scan_try_def)
  next
    case gn: (Some rn)
    with assms Some have "walk rn = []" by simp
    with Some gn show ?thesis by (simp add: scan_def scan_try_def no_faults_def)
  qed
qed

lemma scan_once:
  assumes "root = None \<or> (\<exists>r. root = Some r \<and> get_node (document st) r \<noteq> None)"
  shows "\<exists>st'. scan no_faults root st = Inr st'
     \<and> elements_with_id (document st') i = elements_with_id (document st) i
     \<and> document_body (document st') = document_body (document st)
     \<and> (\<forall>r rn. root = Some r \<and> get_node (document st') r = Some rn \<longrightarrow> walk rn = [])"
proof -
  from scan_document [of no_faults root st] obtain st1 ps where
    s: "scan no_faults root st = Inr st1"
    and d: "document st1 = update_all replaced_node ps (document st)" by blast
  have w: "walk rn' = []" if r: "root = Some r" and g: "get_node (document st1) r = Some rn'"
    for r rn'
  proof -
    from assms r obtain rn where gn: "get_node (document st) r = Some rn" by auto
    from scan_no_faults [OF gn] s r
    have "st1 = st\<lparr>document := update_at (document st) r scan_tree\<rparr>" by simp
    then have "document st1 = update_at (document st) r scan_tree" by simp
    with gn g have "rn' = scan_tree rn" by (simp add: get_node_update_at)
    then show ?thesis by (simp add: walk_scan_tree(1))
  qed
  from s d w show ?thesis
    by (auto simp: elements_with_id_update_all document_body_update_all)
qed

section \<open>The claims\<close>

text \<open>
  C1. In a document without marker containers, Scan followed by Revert gives back the
  document, node for node and code unit for code unit, whatever root is scanned and even
  when the host makes Scan stop half way. For a single text node with a match:
  \<^verbatim>\<open>replaceInTextNode\<close> puts a wrapper in its place whose \<^verbatim>\<open>data-original\<close> attribute is
  the node's whole value, and the callback of \<^verbatim>\<open>afterPrint\<close> on that wrapper puts a text
  node with that value back, which restores the document.
\<close>

theorem scan_then_revert_restores:
  assumes "querySelectorAll (document st) = []"
  shows "(\<exists>st1 st2. scan H root st = Inr st1 \<and> afterPrint st1 = Inr st2
            \<and> document st2 = document st \<and> timers st2 = timers st)
    \<and> (get_node (document st) p = Some (Text tx) \<and> p \<noteq> [] \<and> test tx \<longrightarrow>
         (\<exists>w. replaceInTextNode no_faults (document st) p =
                 Inr (replaceChild (document st) p w, True)
            \<and> get_node (replaceChild (document st) p w) p = Some w
            \<and> matches_wrapper w \<and> getAttribute w ''data-original'' = Some tx
            \<and> revert_each [p] (replaceChild (document st) p w) = Inr (document st)))"
proof (intro conjI impI)
  from scan_document [of H root st] obtain st1 ps where
    s: "scan H root st = Inr st1" and d: "document st1 = update_all replaced_node ps (document st)"
    and ne: "\<forall>p\<in>set ps. p \<noteq> []" and t: "timers st1 = timers st"
    by blast
  have nr: "\<not> revertible (document st1)"
    using assms by (simp add: d revertible_update_all [OF ne] no_wrappers_not_revertible)
  have rt: "revert_tree (document st1) = document st"
    using assms by (simp add: d revert_tree_update_all revert_tree_no_wrappers)
  have "afterPrint st1 = Inr (st1\<lparr>document := document st\<rparr>)"
    using nr rt by (simp add: afterPrint_revert_tree)
  with s t show "\<exists>st1 st2. scan H root st = Inr st1 \<and> afterPrint st1 = Inr st2
            \<and> document st2 = document st \<and> timers st2 = timers st"
    by auto
next
  assume h: "get_node (document st) p = Some (Text tx) \<and> p \<noteq> [] \<and> test tx"
  define d where "d = document st"
  from h have g: "get_node d p = Some (Text tx)" and p: "p \<noteq> []" and t: "test tx"
    by (simp_all add: d_def)
  from wrapper_for_Some [OF t] obtain w where w: "wrapper_for tx = Some w" by blast
  note r = wrapper_for_revertible [OF w]
  have a: "replaceInTextNode no_faults d p = Inr (replaceChild d p w, True)"
    using replaceInTextNode_no_faults [OF g p] w by simp
  have b: "get_node (replaceChild d p w) p = Some w"
    using g by (simp add: get_node_replaceChild)
  have "replaceChild (replaceChild d p w) p (createTextNode tx) = update_at d p (\<lambda>x. Text tx)"
    by (simp add: replaceChild_def update_at_update_at createTextNode_def)
  also have "\<dots> = d" using g by (rule update_at_same) simp
  finally have c: "revert_each [p] (replaceChild d p w) = Inr d"
    using b r(2) p by simp
  from a b c r(1,2)
  show "\<exists>w. replaceInTextNode no_faults (document st) p =
                 Inr (replaceChild (document st) p w, True)
            \<and> get_node (replaceChild (document st) p w) p = Some w
            \<and> matches_wrapper w \<and> getAttribute w ''data-original'' = Some tx
            \<and> revert_each [p] (replaceChild (document st) p w) = Inr (document st)"
    unfolding d_def by blast
qed

theorem scan_then_revert_restores_witness:
  "(\<exists>st1 st2. scan no_faults (document_body two_paragraphs)
         \<lparr>document = two_paragraphs, console = [], timers = []\<rparr> = Inr st1
       \<and> afterPrint st1 = Inr st2 \<and> document st2 = two_paragraphs \<and> timers st2 = [])
   \<and> (\<exists>w. replaceInTextNode no_faults two_paragraphs [1, 0, 0] =
             Inr (replaceChild two_paragraphs [1, 0, 0] w, True)
        \<and> get_node (replaceChild two_paragraphs [1, 0, 0] w) [1, 0, 0] = Some w
        \<and> matches_wrapper w \<and> getAttribute w ''data-original'' = Some (js ''a: _____'')
        \<and> revert_each [[1, 0, 0]] (replaceChild two_paragraphs [1, 0, 0] w) = Inr two_paragraphs)"
proof -
  define st0 where "st0 = \<lparr>document = two_paragraphs, console = [], timers = []\<rparr>"
  have a: "querySelectorAll (document st0) = []"
    by (simp add: st0_def no_wrappers_two_paragraphs)
  have g: "get_node (document st0) [1, 0, 0] = Some (Text (js ''a: _____'')) \<and> [1, 0, 0] \<noteq> ([] :: path)
      \<and> test (js ''a: _____'')"
    by (simp add: st0_def two_paragraphs_def test_a5)
  from scan_then_revert_restores [OF a, of no_faults "document_body two_paragraphs"
      "[1, 0, 0]" "js ''a: _____''"] g
  show ?thesis by (simp add: st0_def)
qed

text \<open>
  C2. Every match of the pattern has a colon, white space and a run of at least five
  underscores, and a field's width is \<open>max 2 count\<close> in \<^verbatim>\<open>ch\<close> units. In a text with one
  colon, followed by white space \<open>sp\<close> and a run of exactly \<open>k\<close> underscores: for
  \<open>5 \<le> k\<close> the attempt at the colon succeeds and \<^verbatim>\<open>replaceInTextNode\<close> builds a wrapper
  with one field for \<open>k\<close>, which for a run of five has the width \<^verbatim>\<open>5ch\<close>; for
  \<open>1 \<le> k \<le> 4\<close> there is no match and no wrapper, hence no field.
\<close>

theorem placeholder_threshold_and_width:
  assumes "list_all isWhiteSpace sp" and "COLON \<notin> set pre" and "COLON \<notin> set post"
    and "\<not> starts_with_underscore post"
  shows "map_of (style (createInputFor n)) ''width'' = Some (String_nat (max 2 n) @ js ''ch'')
    \<and> map_of (style (createInputFor 5)) ''width'' = Some (js ''5ch'')
    \<and> (match_here s0 = Some (sp0, us0) \<longrightarrow>
         5 \<le> length us0 \<and> us0 = replicate (length us0) UNDERSCORE \<and> list_all isWhiteSpace sp0)
    \<and> (5 \<le> k \<longrightarrow>
         match_here (COLON # sp @ replicate k UNDERSCORE @ post) = Some (sp, replicate k UNDERSCORE)
       \<and> wrapper_for (pre @ COLON # sp @ replicate k UNDERSCORE @ post) =
           Some (Element ''SPAN'' [WRAPPER_CLASS]
             [(''data-original'', pre @ COLON # sp @ replicate k UNDERSCORE @ post)] []
             ((if pre \<noteq> [] then [Text pre] else []) @ [Text (COLON # sp), createInputFor k]
               @ (if post \<noteq> [] then [Text post] else []))))
    \<and> (0 < k \<and> k < 5 \<longrightarrow>
         match_here (COLON # sp @ replicate k UNDERSCORE @ post) = None
       \<and> \<not> test (pre @ COLON # sp @ replicate k UNDERSCORE @ post)
       \<and> wrapper_for (pre @ COLON # sp @ replicate k UNDERSCORE @ post) = None)"
proof -
  have w5: "map_of (style (createInputFor 5)) ''width'' = Some (js ''5ch'')"
    by (simp add: createInputFor_width String_nat.simps js_def)
  have ge: "match_here (COLON # sp @ replicate k UNDERSCORE @ post) = Some (sp, replicate k UNDERSCORE)"
    if "5 \<le> k"
    using assms that
    by (intro match_here_intro) (simp_all add: list_all_iff not_starts_with_underscore_iff)
  have lt: "\<not> test (pre @ COLON # sp @ replicate k UNDERSCORE @ post)" if "0 < k" "k < 5"
    using assms(1,2,3) that assms(4) by (rule short_run_no_match)
  have any: "5 \<le> length us0 \<and> us0 = replicate (length us0) UNDERSCORE \<and> list_all isWhiteSpace sp0"
    if "match_here s0 = Some (sp0, us0)"
    using match_here_shape(2,3,4) [OF that] by (simp add: list_all_iff)
  show ?thesis
    using createInputFor_width w5 ge single_match_wrapper [OF assms(1,2,3) _ assms(4), of k]
      match_here_short [OF assms(1) _ _ assms(4), of k] lt wrapper_for_None any
    by blast
qed

theorem placeholder_threshold_and_width_witness:
  "wrapper_for (js ''Name: _____'') =
      Some (Element ''SPAN'' [WRAPPER_CLASS] [(''data-original'', js ''Name: _____'')] []
        [Text (js ''Name''), Text (js '': ''), createInputFor 5])
   \<and> map_of (style (createInputFor 5)) ''width'' = Some (js ''5ch'')
   \<and> wrapper_for (js ''Name: ____'') = None
   \<and> \<not> test (js ''Name: ____'')"
proof -
  have h1: "list_all isWhiteSpace (js '' '')" by (simp add: js_eval)
  have h2: "COLON \<notin> set (js ''Name'')" by (simp add: js_eval)
  have h3: "COLON \<notin> set []" by simp
  have h4: "\<not> starts_with_underscore []" by (simp add: starts_with_underscore_def)
  have e5: "js ''Name'' @ COLON # js '' '' @ replicate 5 UNDERSCORE @ [] = js ''Name: _____''"
    by (simp add: js_eval replicate_5)
  have e4: "js ''Name'' @ COLON # js '' '' @ replicate 4 UNDERSCORE @ [] = js ''Name: ____''"
    by (simp add: js_eval replicate_4)
  have n: "js ''Name'' \<noteq> []" "COLON # js '' '' = js '': ''" by (simp_all add: js_eval)
  from placeholder_threshold_and_width [OF h1 h2 h3 h4, where n = 5 and k = 5]
    placeholder_threshold_and_width [OF h1 h2 h3 h4, where n = 5 and k = 4]
  show ?thesis unfolding e5 e4 by (simp add: n)
qed

text \<open>
  C3. \<^verbatim>\<open>replaceInTextNode\<close> on a text node with at least one match puts one wrapper in
  its place, which stores the original text. Its children are, match by match from the
  left, the text before the colon (when not empty), the colon with the captured white
  space as text, and one field for the underscore run; then the remainder (when not
  empty). The pieces and the remainder spell the original text, no text between the
  fields holds a match, and every run has at least five underscores. For
  \<^verbatim>\<open>"Name: _____ Date: ______"\<close> the children are the text nodes \<^verbatim>\<open>"Name"\<close> and
  \<^verbatim>\<open>": "\<close> (together the text \<^verbatim>\<open>"Name: "\<close>), a field of width \<^verbatim>\<open>5ch\<close>, the text
  nodes \<^verbatim>\<open>" Date"\<close> and \<^verbatim>\<open>": "\<close> (together \<^verbatim>\<open>" Date: "\<close>) and a field of width
  \<^verbatim>\<open>6ch\<close>.
\<close>

theorem replaceInTextNode_fields:
  assumes "get_node d n = Some (Text tx)" and "n \<noteq> []"
  shows "(test tx \<longrightarrow>
      (\<exists>ms rest w.
         w = Element ''SPAN'' [WRAPPER_CLASS] [(''data-original'', tx)] []
               (concat (map piece_nodes ms) @ (if rest \<noteq> [] then [Text rest] else []))
       \<and> replaceInTextNode no_faults d n = Inr (replaceChild d n w, True)
       \<and> get_node (replaceChild d n w) n = Some w
       \<and> tx = concat (map piece_text ms) @ rest
       \<and> filter isElement (childNodes w) = map piece_field ms
       \<and> ms \<noteq> [] \<and> list_all piece_ok ms \<and> runs_end ms rest \<and> \<not> test rest))
    \<and> (tx = js ''Name: _____ Date: ______'' \<longrightarrow>
      (\<exists>cs w.
         w = Element ''SPAN'' [WRAPPER_CLASS] [(''data-original'', js ''Name: _____ Date: ______'')]
               [] cs
       \<and> replaceInTextNode no_faults d n = Inr (replaceChild d n w, True)
       \<and> get_node (replaceChild d n w) n = Some w
       \<and> cs = [Text (js ''Name''), Text (js '': ''), createInputFor 5,
               Text (js '' Date''), Text (js '': ''), createInputFor 6]
       \<and> merge_text cs =
             [Text (js ''Name: ''), createInputFor 5, Text (js '' Date: ''), createInputFor 6]
       \<and> map_of (style (createInputFor 5)) ''width'' = Some (js ''5ch'')
       \<and> map_of (style (createInputFor 6)) ''width'' = Some (js ''6ch'')))"
proof (intro conjI impI)
  assume t: "test tx"
  from wrapper_for_Some [OF t] obtain ms rest where
    w: "wrapper_for tx = Some (Element ''SPAN'' [WRAPPER_CLASS] [(''data-original'', tx)] []
        (concat (map piece_nodes ms) @ (if rest \<noteq> [] then [Text rest] else [])))"
    and r: "tx = concat (map piece_text ms) @ rest" "ms \<noteq> []" "list_all piece_ok ms"
      "runs_end ms rest" "\<not> test rest"
    by blast
  define wr where "wr = Element ''SPAN'' [WRAPPER_CLASS] [(''data-original'', tx)] []
        (concat (map piece_nodes ms) @ (if rest \<noteq> [] then [Text rest] else []))"
  have a: "replaceInTextNode no_faults d n = Inr (replaceChild d n wr, True)"
    using replaceInTextNode_no_faults [OF assms] w by (simp add: wr_def)
  have b: "get_node (replaceChild d n wr) n = Some wr"
    using assms(1) by (simp add: get_node_replaceChild)
  have c: "filter isElement (childNodes wr) = map piece_field ms"
    by (simp add: wr_def filter_isElement_pieces isElement_def)
  from a b c r wr_def
  show "\<exists>ms rest w.
         w = Element ''SPAN'' [WRAPPER_CLASS] [(''data-original'', tx)] []
               (concat (map piece_nodes ms) @ (if rest \<noteq> [] then [Text rest] else []))
       \<and> replaceInTextNode no_faults d n = Inr (replaceChild d n w, True)
       \<and> get_node (replaceChild d n w) n = Some w
       \<and> tx = concat (map piece_text ms) @ rest
       \<and> filter isElement (childNodes w) = map piece_field ms
       \<and> ms \<noteq> [] \<and> list_all piece_ok ms \<and> runs_end ms rest \<and> \<not> test rest"
    by blast
next
  assume e: "tx = js ''Name: _____ Date: ______''"
  define cs where "cs = [Text (js ''Name''), Text (js '': ''), createInputFor 5,
               Text (js '' Date''), Text (js '': ''), createInputFor 6]"
  define wr where "wr = Element ''SPAN'' [WRAPPER_CLASS]
      [(''data-original'', js ''Name: _____ Date: ______'')] [] cs"
  have a: "replaceInTextNode no_faults d n = Inr (replaceChild d n wr, True)"
    using replaceInTextNode_no_faults [OF assms] example_wrapper by (simp add: wr_def cs_def e)
  have b: "get_node (replaceChild d n wr) n = Some wr"
    using assms(1) by (simp add: get_node_replaceChild)
  have c: "merge_text cs =
      [Text (js ''Name: ''), createInputFor 5, Text (js '' Date: ''), createInputFor 6]"
    unfolding cs_def by (rule example_merge)
  from a b c wr_def cs_def input_width_5 input_width_6
  show "\<exists>cs w.
         w = Element ''SPAN'' [WRAPPER_CLASS] [(''data-original'', js ''Name: _____ Date: ______'')]
               [] cs
       \<and> replaceInTextNode no_faults d n = Inr (replaceChild d n w, True)
       \<and> get_node (replaceChild d n w) n = Some w
       \<and> cs = [Text (js ''Name''), Text (js '': ''), createInputFor 5,
               Text (js '' Date''), Text (js '': ''), createInputFor 6]
       \<and> merge_text cs =
             [Text (js ''Name: ''), createInputFor 5, Text (js '' Date: ''), createInputFor 6]
       \<and> map_of (style (createInputFor 5)) ''width'' = Some (js ''5ch'')
       \<and> map_of (style (createInputFor 6)) ''width'' = Some (js ''6ch'')"
    by blast
qed

theorem replaceInTextNode_fields_witness:
  "replaceInTextNode no_faults
      (Element ''P'' [] [] [] [Text (js ''Name: _____ Date: ______'')]) [0] =
    Inr (Element ''P'' [] [] []
          [Element ''SPAN'' [WRAPPER_CLASS] [(''data-original'', js ''Name: _____ Date: ______'')] []
            [Text (js ''Name''), Text (js '': ''), createInputFor 5,
             Text (js '' Date''), Text (js '': ''), createInputFor 6]], True)"
proof -
  have g: "get_node (Element ''P'' [] [] [] [Text (js ''Name: _____ Date: ______'')]) [0] =
      Some (Text (js ''Name: _____ Date: ______''))" by simp
  have n: "[0::nat] \<noteq> []" by simp
  from replaceInTextNode_fields [OF g n]
  show ?thesis by (auto simp: replaceChild_def)
qed

text \<open>
  C4, as amended. A text node whose parent element is of an exempt kind (\<^verbatim>\<open>script\<close>,
  \<^verbatim>\<open>style\<close>, \<^verbatim>\<open>textarea\<close>, \<^verbatim>\<open>code\<close>, \<^verbatim>\<open>pre\<close>, \<^verbatim>\<open>input\<close>, \<^verbatim>\<open>select\<close>, \<^verbatim>\<open>button\<close>,
  \<^verbatim>\<open>svg\<close>) is still there, with its value, after Scan: whatever the root, whatever its
  value, and whatever the host raises.
\<close>

theorem scan_keeps_text_of_exempt_parent:
  assumes "get_node (document st) p = Some (Text v)"
    and "get_node (document st) (butlast p) = Some (Element t c a s cs)"
    and "toLowerCase t \<in> set EXEMPT"
  shows "\<exists>st'. scan H root st = Inr st' \<and> get_node (document st') p = Some (Text v)"
proof -
  define d where "d = document st"
  have keep: "get_node (update_all replaced_node ps d) p = Some (Text v)"
    if sub: "set ps \<subseteq> set (map ((@) r) (walk rn))" and gn: "get_node d r = Some rn"
    for ps r rn
  proof (rule get_node_update_all_text)
    show "get_node d p = Some (Text v)" using assms(1) by (simp add: d_def)
    show "\<forall>q\<in>set ps. \<not> prefix q p"
    proof (intro ballI notI)
      fix q assume q: "q \<in> set ps" and pre: "prefix q p"
      from q sub obtain w where w: "q = r @ w" "w \<in> set (walk rn)" by auto
      from walk_accepted(1) [OF w(2)] gn have acc: "accepted_at d q"
        unfolding w(1) by (intro accepted_at_append)
      then obtain t' c' a' s' cs' v' where
        par: "get_node d (butlast q) = Some (Element t' c' a' s' cs')"
        and tx: "get_node d q = Some (Text v')" and ok: "acceptNode (Some t') v'"
        by (auto simp: accepted_at_iff)
      from pre obtain x where x: "p = q @ x" by (auto simp: prefix_def)
      have "x = []"
      proof (rule ccontr)
        assume "x \<noteq> []"
        from get_node_below_text [OF tx this] assms(1) x show False by (simp add: d_def)
      qed
      with x have "p = q" by simp
      with par assms(2) have "t' = t" by (simp add: d_def)
      with acceptNode_not_exempt [OF ok] assms(3) show False by simp
    qed
  qed
  from scan_try_cases [of H root d] consider
      (early) e where "scan_try H root d = Inl (e, d)"
    | (full) r rn where "get_node d r = Some rn"
        "scan_try H root d = Inr (update_all replaced_node (map ((@) r) (walk rn)) d)"
    | (part) r rn e k where "get_node d r = Some rn"
        "scan_try H root d =
            Inl (e, update_all replaced_node (take k (map ((@) r) (walk rn))) d)"
    by blast
  then have "\<exists>e d'. (scan_try H root d = Inr d' \<or> scan_try H root d = Inl (e, d'))
      \<and> get_node d' p = Some (Text v)"
  proof cases
    case early
    then show ?thesis using assms(1) by (auto simp: d_def)
  next
    case full
    with keep [OF subset_refl full(1)] show ?thesis by auto
  next
    case part
    with keep [OF set_take_subset part(1)] show ?thesis by auto
  qed
  then show ?thesis by (auto simp: scan_def d_def)
qed

theorem scan_keeps_text_of_exempt_parent_witness:
  "\<exists>st'. scan no_faults (document_body pre_document)
       \<lparr>document = pre_document, console = [], timers = []\<rparr> = Inr st'
     \<and> get_node (document st') [1, 0, 0] = Some (Text (js ''a: _____''))"
proof -
  have a: "get_node (document \<lparr>document = pre_document, console = [], timers = []\<rparr>) [1, 0, 0] =
      Some (Text (js ''a: _____''))"
    by (simp add: pre_document_def)
  have b: "get_node (document \<lparr>document = pre_document, console = [], timers = []\<rparr>)
      (butlast [1, 0, 0]) = Some (Element ''PRE'' [] [] [] [Text (js ''a: _____'')])"
    by (simp add: pre_document_def)
  have c: "toLowerCase ''PRE'' \<in> set EXEMPT" by (simp add: toLowerCase_def EXEMPT_def)
  from scan_keeps_text_of_exempt_parent [OF a b c] show ?thesis .
qed

text \<open>
  C4 as stated fails for a text node that lies deeper inside an exempt element: the
  filter looks at \<^verbatim>\<open>node.parentNode\<close> only. In
  \<^verbatim>\<open><pre><span>a: _____</span></pre>\<close> the text node lies inside the \<^verbatim>\<open>pre\<close> element at
  path \<open>[1, 0]\<close>, its parent is the \<^verbatim>\<open>span\<close>, and Scan puts a wrapper in its place.
\<close>

theorem scan_transforms_text_nested_in_pre:
  "get_node nested_pre_document [1, 0, 0, 0] = Some (Text (js ''a: _____''))
   \<and> map_option (is_tag EXEMPT) (get_node nested_pre_document [1, 0]) = Some True
   \<and> scan no_faults (document_body nested_pre_document)
       \<lparr>document = nested_pre_document, console = [], timers = []\<rparr> =
     Inr \<lparr>document =
          Element ''HTML'' [] [] []
            [Element ''HEAD'' [] [] [] [],
             Element ''BODY'' [] [] []
               [Element ''PRE'' [] [] []
                 [Element ''SPAN'' [] [] []
                   [Element ''SPAN'' [WRAPPER_CLASS] [(''data-original'', js ''a: _____'')] []
                     [Text (js ''a''), Text (js '': ''), createInputFor 5]]]]],
        console = [], timers = []\<rparr>"
  by (simp add: nested_pre_document_def dom_eval wrapper_a5 test_a5 trim_a5)

text \<open>
  C5. Take a document that either has a \<^verbatim>\<open>head\<close> and no element with the style id, or
  has exactly one element with that id, a \<^verbatim>\<open>style\<close> element (as \<^verbatim>\<open>ensureStyle\<close> leaves
  it). After \<^verbatim>\<open>beforePrint\<close> twice in a row, exactly one element has the style id, and
  it is a \<^verbatim>\<open>style\<close> element; the second call finds no text node to replace below the
  body and leaves the document, with every wrapper and field of the first call, as it
  was.
\<close>

theorem beforePrint_twice:
  assumes "getElementById (document st) STYLE_ID = None \<and> document_head (document st) \<noteq> None
      \<or> elements_with_id (document st) STYLE_ID = [''STYLE'']"
  shows "\<exists>st1 st2. beforePrint no_faults st = Inr st1 \<and> beforePrint no_faults st1 = Inr st2
     \<and> elements_with_id (document st1) STYLE_ID = [''STYLE'']
     \<and> elements_with_id (document st2) STYLE_ID = [''STYLE'']
     \<and> (\<forall>r rn. document_body (document st1) = Some r \<and> get_node (document st1) r = Some rn
           \<longrightarrow> walk rn = [])
     \<and> document st2 = document st1"
proof -
  from assms obtain d1 where e: "ensureStyle (document st) = Inr d1"
    and i1: "elements_with_id d1 STYLE_ID = [''STYLE'']"
  proof
    assume "getElementById (document st) STYLE_ID = None \<and> document_head (document st) \<noteq> None"
    then obtain h where "getElementById (document st) STYLE_ID = None"
      "document_head (document st) = Some h" by auto
    from ensureStyle_fresh [OF this] that show ?thesis by blast
  next
    assume a: "elements_with_id (document st) STYLE_ID = [''STYLE'']"
    then have "ensureStyle (document st) = Inr (document st)"
      by (intro ensureStyle_present) simp
    with a that show ?thesis by blast
  qed
  define sa where "sa = st\<lparr>document := d1\<rparr>"
  have root: "document_body d1 = None
      \<or> (\<exists>r. document_body d1 = Some r \<and> get_node (document sa) r \<noteq> None)"
    by (cases "document_body d1") (auto simp: sa_def dest: document_body_Some)
  from scan_once [OF root, of STYLE_ID] obtain st1 where
    s1: "scan no_faults (document_body d1) sa = Inr st1"
    and j1: "elements_with_id (document st1) STYLE_ID = [''STYLE'']"
    and b1: "document_body (document st1) = document_body d1"
    and w1: "\<forall>r rn. document_body d1 = Some r \<and> get_node (document st1) r = Some rn
        \<longrightarrow> walk rn = []"
    by (auto simp: sa_def i1)
  have bp1: "beforePrint no_faults st = Inr st1"
    using e s1 by (simp add: beforePrint_def sa_def)
  have e2: "ensureStyle (document st1) = Inr (document st1)"
    using j1 by (intro ensureStyle_present) simp
  have w2: "\<forall>r rn. document_body (document st1) = Some r
      \<and> get_node (document (st1\<lparr>document := document st1\<rparr>)) r = Some rn \<longrightarrow> walk rn = []"
    using w1 b1 by simp
  from scan_after_scan [OF w2] obtain st2 where
    s2: "scan no_faults (document_body (document st1)) (st1\<lparr>document := document st1\<rparr>) = Inr st2"
    and d2: "document st2 = document st1" by auto
  have bp2: "beforePrint no_faults st1 = Inr st2"
    using e2 s2 by (simp add: beforePrint_def)
  from bp1 bp2 j1 d2 w1 b1 show ?thesis by auto
qed

theorem beforePrint_twice_witness:
  "\<exists>st1 st2. beforePrint no_faults \<lparr>document = small_document, console = [], timers = []\<rparr> = Inr st1
     \<and> beforePrint no_faults st1 = Inr st2
     \<and> elements_with_id (document st1) STYLE_ID = [''STYLE'']
     \<and> elements_with_id (document st2) STYLE_ID = [''STYLE'']
     \<and> document st2 = document st1
     \<and> document st1 =
         Element ''HTML'' [] [] []
           [Element ''HEAD'' [] [] [] [style_element],
            Element ''BODY'' [] [] []
              [Element ''P'' [] [] []
                 [Element ''SPAN'' [WRAPPER_CLASS] [(''data-original'', js ''a: _____'')] []
                    [Text (js ''a''), Text (js '': ''), createInputFor 5]]]]"
proof -
  define st0 where "st0 = \<lparr>document = small_document, console = [], timers = []\<rparr>"
  have h: "getElementById (document st0) STYLE_ID = None \<and> document_head (document st0) \<noteq> None
      \<or> elements_with_id (document st0) STYLE_ID = [''STYLE'']"
    by (simp add: st0_def small_document_def getElementById_def getAttribute_def
        document_head_def is_tag_def toLowerCase_def)
  have b: "beforePrint no_faults st0 =
      Inr (st0\<lparr>document :=
         Element ''HTML'' [] [] []
           [Element ''HEAD'' [] [] [] [style_element],
            Element ''BODY'' [] [] []
              [Element ''P'' [] [] []
                 [Element ''SPAN'' [WRAPPER_CLASS] [(''data-original'', js ''a: _____'')] []
                    [Text (js ''a''), Text (js '': ''), createInputFor 5]]]]\<rparr>)"
    by (simp add: st0_def small_document_def beforePrint_def ensureStyle_def getElementById_def
        getAttribute_def document_head_def appendChild_def dom_eval wrapper_a5 test_a5 trim_a5)
  from beforePrint_twice [OF h] b show ?thesis unfolding st0_def by auto
qed

text \<open>
  C6. \<^verbatim>\<open>scan\<close> always returns normally. Where its \<^verbatim>\<open>try\<close> block raises, the warning
  \<^verbatim>\<open>'print-fillers: scanning failed'\<close> is logged with the exception, and the document is
  the one at the point of failure: the original one when the walker or its creation
  failed, else the original one with the replacements made before the call that raised.
\<close>

theorem scan_never_raises:
  "\<exists>st'. scan H root st = Inr st' \<and> timers st' = timers st
     \<and> (case scan_try H root (document st) of
          Inr d \<Rightarrow> st' = st\<lparr>document := d\<rparr>
        | Inl (err, d) \<Rightarrow>
            st' = st\<lparr>document := d,
                     console := console st @ [(js ''print-fillers: scanning failed'', err)]\<rparr>
          \<and> (d = document st
             \<or> (\<exists>r rn k. root = Some r \<and> get_node (document st) r = Some rn
                  \<and> k < length (walk rn)
                  \<and> replace_fault H (map ((@) r) (walk rn) ! k) = Some err
                  \<and> replace_each no_faults (take k (map ((@) r) (walk rn))) (document st)
                      = Inr d)))"
proof -
  define d0 where "d0 = document st"
  from scan_try_cases [of H root d0] consider
      (early) e where "scan_try H root d0 = Inl (e, d0)"
    | (full) d where "scan_try H root d0 = Inr d"
    | (part) r rn e k where "root = Some r" "get_node d0 r = Some rn" "k < length (walk rn)"
        "replace_fault H (map ((@) r) (walk rn) ! k) = Some e"
        "scan_try H root d0 =
            Inl (e, update_all replaced_node (take k (map ((@) r) (walk rn))) d0)"
    by blast
  then show ?thesis
  proof cases
    case early
    then show ?thesis by (simp add: scan_def d0_def)
  next
    case full
    then show ?thesis by (simp add: scan_def d0_def)
  next
    case part
    have ne: "\<forall>p\<in>set (take k (map ((@) r) (walk rn))). p \<noteq> []"
      by (auto dest!: in_set_takeD dest: walk_nonempty)
    from replace_each_no_faults [OF ne, of d0] part
    show ?thesis by (auto simp: scan_def d0_def)
  qed
qed

theorem scan_never_raises_witness:
  "scan second_replace_fails (document_body two_paragraphs)
     \<lparr>document = two_paragraphs, console = [], timers = []\<rparr> =
   Inr \<lparr>document =
          Element ''HTML'' [] [] []
            [Element ''HEAD'' [] [] [] [],
             Element ''BODY'' [] [] []
               [Element ''P'' [] [] []
                  [Element ''SPAN'' [WRAPPER_CLASS] [(''data-original'', js ''a: _____'')] []
                     [Text (js ''a''), Text (js '': ''), createInputFor 5]],
                Element ''P'' [] [] [] [Text (js ''a: _____'')]]],
        console = [(js ''print-fillers: scanning failed'', HostError 7)], timers = []\<rparr>"
proof -
  have t: "scan_try second_replace_fails (document_body two_paragraphs) two_paragraphs =
      Inl (HostError 7,
          Element ''HTML'' [] [] []
            [Element ''HEAD'' [] [] [] [],
             Element ''BODY'' [] [] []
               [Element ''P'' [] [] []
                  [Element ''SPAN'' [WRAPPER_CLASS] [(''data-original'', js ''a: _____'')] []
                     [Text (js ''a''), Text (js '': ''), createInputFor 5]],
                Element ''P'' [] [] [] [Text (js ''a: _____'')]]])"
    by (simp add: two_paragraphs_def second_replace_fails_def scan_try_def document_body_def
        is_tag_def toLowerCase_def acceptNode_def EXEMPT_def replaceInTextNode_def
        replaceChild_def wrapper_a5 test_a5 trim_a5)
  from scan_never_raises [of second_replace_fails "document_body two_paragraphs"
      "\<lparr>document = two_paragraphs, console = [], timers = []\<rparr>"]
  show ?thesis by (auto simp: t)
qed

text \<open>
  C7. With no marker container in the document, \<^verbatim>\<open>afterPrint\<close> changes nothing.
\<close>

theorem afterPrint_without_markers_is_noop:
  "querySelectorAll (document st) = [] \<Longrightarrow> afterPrint st = Inr st"
  by (simp add: afterPrint_def)

theorem afterPrint_without_markers_is_noop_witness:
  "querySelectorAll two_paragraphs = []
   \<and> afterPrint \<lparr>document = two_paragraphs, console = [], timers = []\<rparr> =
       Inr \<lparr>document = two_paragraphs, console = [], timers = []\<rparr>"
  using afterPrint_without_markers_is_noop
    [of "\<lparr>document = two_paragraphs, console = [], timers = []\<rparr>"]
  by (simp add: no_wrappers_two_paragraphs)

text \<open>
  C8. The function put in place of \<^verbatim>\<open>window.print\<close> calls the original print action
  whatever the transformer does: on the state that \<^verbatim>\<open>beforePrint\<close> left, or on the
  state as it was when \<^verbatim>\<open>beforePrint\<close> raised. What the action returns or raises is what
  the wrapper returns or raises; a failure to set the timer for \<^verbatim>\<open>afterPrint\<close> changes
  nothing of that.
\<close>

theorem window_print_calls_print_action:
  "\<exists>st1. (beforePrint H st = Inr st1 \<or> (\<exists>e. beforePrint H st = Inl e) \<and> st1 = st)
     \<and> fst (window_print H origPrint args st) = fst (origPrint args st1)
     \<and> (snd (window_print H origPrint args st) = snd (origPrint args st1)
        \<or> (\<exists>res. fst (origPrint args st1) = Inr res) \<and> timer_fault H = None
          \<and> snd (window_print H origPrint args st) =
              (snd (origPrint args st1))\<lparr>timers := timers (snd (origPrint args st1)) @ [(0, 500)]\<rparr>)"
proof -
  define st1 where "st1 = (case beforePrint H st of Inl e \<Rightarrow> st | Inr st' \<Rightarrow> st')"
  have a: "beforePrint H st = Inr st1 \<or> (\<exists>e. beforePrint H st = Inl e) \<and> st1 = st"
    by (cases "beforePrint H st") (simp_all add: st1_def)
  obtain r st2 where o: "origPrint args st1 = (r, st2)" by (cases "origPrint args st1")
  have w: "window_print H origPrint args st =
      (case r of Inl e \<Rightarrow> (Inl e, st2)
       | Inr res \<Rightarrow> (Inr res,
           case setTimeout_afterPrint H st2 of Inl e \<Rightarrow> st2 | Inr st' \<Rightarrow> st'))"
    by (cases r) (simp_all add: window_print_def Let_def o flip: st1_def)
  have b: "fst (window_print H origPrint args st) = fst (origPrint args st1)"
    by (cases r) (simp_all add: w o)
  have c: "snd (window_print H origPrint args st) = snd (origPrint args st1)
        \<or> (\<exists>res. fst (origPrint args st1) = Inr res) \<and> timer_fault H = None
          \<and> snd (window_print H origPrint args st) =
              (snd (origPrint args st1))\<lparr>timers := timers (snd (origPrint args st1)) @ [(0, 500)]\<rparr>"
    by (cases r; cases "timer_fault H") (simp_all add: w o setTimeout_afterPrint_def)
  from a b c show ?thesis by blast
qed

theorem window_print_calls_print_action_witness:
  "beforePrint timer_fails \<lparr>document = no_head_document, console = [], timers = []\<rparr> =
     Inl TypeError
   \<and> window_print timer_fails print_action 41
       \<lparr>document = no_head_document, console = [], timers = []\<rparr> =
     (Inr 42, \<lparr>document = no_head_document, console = [], timers = []\<rparr>)"
proof -
  have b: "beforePrint timer_fails \<lparr>document = no_head_document, console = [], timers = []\<rparr> =
     Inl TypeError"
    by (simp add: beforePrint_def ensureStyle_def getElementById_def getAttribute_def
        document_head_def is_tag_def toLowerCase_def no_head_document_def)
  define st0 where "st0 = \<lparr>document = no_head_document, console = [], timers = []\<rparr>"
  have tf: "timer_fault timer_fails \<noteq> None" by (simp add: timer_fails_def)
  from window_print_calls_print_action [of timer_fails st0 print_action 41]
  obtain st1 where s: "beforePrint timer_fails st0 = Inr st1
        \<or> (\<exists>e. beforePrint timer_fails st0 = Inl e) \<and> st1 = st0"
    and f: "fst (window_print timer_fails print_action 41 st0) = Inr 42"
    and t: "snd (window_print timer_fails print_action 41 st0) = st1"
    using tf by (auto simp: print_action_def)
  from s b have "st1 = st0" by (simp add: st0_def)
  with f t have "window_print timer_fails print_action 41 st0 = (Inr 42, st0)"
    by (simp add: prod_eq_iff)
  with b show ?thesis by (simp add: st0_def)
qed

text \<open>
  C9. An element with the wrapper class and without a \<^verbatim>\<open>data-original\<close> attribute, not
  itself inside a wrapper that is replaced, stays where it is: \<^verbatim>\<open>afterPrint\<close> does not fail, and
  afterwards the element is at the same path with its tag, classes, attributes, style
  and number of children; every child that holds no wrapper of its own (a text node, a
  field) is as it was.
\<close>

theorem afterPrint_keeps_wrapper_without_original:
  assumes "get_node (document st) p = Some (Element t c a s cs)"
    and "WRAPPER_CLASS \<in> set c"
    and "getAttribute (Element t c a s cs) ''data-original'' = None"
    and "\<forall>k<length p. \<forall>n. get_node (document st) (take k p) = Some n \<longrightarrow> \<not> revertible n"
  shows "\<exists>st' cs'. afterPrint st = Inr st'
     \<and> get_node (document st') p = Some (Element t c a s cs')
     \<and> length cs' = length cs
     \<and> (\<forall>i<length cs. querySelectorAll (cs ! i) = [] \<longrightarrow> cs' ! i = cs ! i)"
proof -
  let ?e = "Element t c a s cs"
  have ne: "\<not> revertible ?e" using assms(3) by (simp add: revertible_def)
  have root: "\<not> revertible (document st)"
  proof (cases p)
    case Nil
    with assms(1) ne show ?thesis by simp
  next
    case (Cons i q)
    then have "0 < length p" by simp
    moreover have "get_node (document st) (take 0 p) = Some (document st)" by simp
    ultimately show ?thesis using assms(4) by blast
  qed
  then have a: "afterPrint st = Inr (st\<lparr>document := revert_tree (document st)\<rparr>)"
    by (simp add: afterPrint_revert_tree)
  from get_node_revert_tree [OF assms(1,4)] ne
  have b: "get_node (revert_tree (document st)) p = Some (Element t c a s (map revert_tree cs))"
    by (simp add: revert_children_map)
  have c: "\<forall>i<length cs. querySelectorAll (cs ! i) = [] \<longrightarrow> map revert_tree cs ! i = cs ! i"
    by (simp add: revert_tree_no_wrappers)
  from a b c show ?thesis by (intro exI [of _ "st\<lparr>document := revert_tree (document st)\<rparr>"]
      exI [of _ "map revert_tree cs"]) simp
qed

theorem afterPrint_keeps_wrapper_without_original_witness:
  "\<exists>st'. afterPrint \<lparr>document = bare_wrapper_document, console = [], timers = []\<rparr> = Inr st'
     \<and> get_node (document st') [1, 0] =
         Some (Element ''SPAN'' [WRAPPER_CLASS] [] [] [Text (js ''a: ''), createInputFor 5])"
proof -
  define st0 where "st0 = \<lparr>document = bare_wrapper_document, console = [], timers = []\<rparr>"
  define cs where "cs = [Text (js ''a: ''), createInputFor 5]"
  have a: "get_node (document st0) [1, 0] = Some (Element ''SPAN'' [WRAPPER_CLASS] [] [] cs)"
    by (simp add: st0_def bare_wrapper_document_def cs_def)
  have b: "WRAPPER_CLASS \<in> set [WRAPPER_CLASS]" by simp
  have c: "getAttribute (Element ''SPAN'' [WRAPPER_CLASS] [] [] cs) ''data-original'' = None"
    by (simp add: getAttribute_def)
  have d: "\<forall>k<length [1, 0 :: nat]. \<forall>n. get_node (document st0) (take k [1, 0]) = Some n
      \<longrightarrow> \<not> revertible n"
    by (simp add: st0_def bare_wrapper_document_def revertible_def matches_wrapper_def
        toLowerCase_def less_Suc_eq)
  have q: "\<forall>i<length cs. querySelectorAll (cs ! i) = []"
    by (simp add: cs_def createInputFor_def matches_wrapper_def toLowerCase_def less_Suc_eq
        js_def INPUT_CLASS_def WRAPPER_CLASS_def)
  from afterPrint_keeps_wrapper_without_original [OF a b c d]
  obtain st' cs' where r: "afterPrint st0 = Inr st'"
    "get_node (document st') [1, 0] = Some (Element ''SPAN'' [WRAPPER_CLASS] [] [] cs')"
    "length cs' = length cs" "\<forall>i<length cs. cs' ! i = cs ! i"
    using q by auto
  from r(3,4) have "cs' = cs" by (simp add: list_eq_iff_nth_eq)
  with r(1,2) show ?thesis unfolding st0_def cs_def by blast
qed

text \<open>
  C10. Every field of a wrapper that \<^verbatim>\<open>replaceInTextNode\<close> builds stands for one underscore
  run of the text, counted whole and at least five long; its \<^verbatim>\<open>data-underscores\<close>
  attribute is that length and its width is that length in \<^verbatim>\<open>ch\<close>: the floor of 2
  never applies.
\<close>

theorem field_width_is_run_length:
  assumes "wrapper_for tx = Some w"
  shows "\<exists>ms rest.
      tx = concat (map piece_text ms) @ rest \<and> runs_end ms rest \<and> list_all piece_ok ms
    \<and> filter isElement (childNodes w) = map piece_field ms
    \<and> list_all (\<lambda>p. case p of (before, spaces, count) \<Rightarrow>
          5 \<le> count
        \<and> getAttribute (piece_field p) ''data-underscores'' = Some (String_nat count)
        \<and> map_of (style (piece_field p)) ''width'' = Some (String_nat count @ js ''ch'')) ms"
proof -
  from assms have t: "test tx" using wrapper_for_None [of tx] by (cases "test tx") auto
  from wrapper_for_Some [OF t] assms obtain ms rest where
    w: "w = Element ''SPAN'' [WRAPPER_CLASS] [(''data-original'', tx)] []
        (concat (map piece_nodes ms) @ (if rest \<noteq> [] then [Text rest] else []))"
    and r: "tx = concat (map piece_text ms) @ rest" "list_all piece_ok ms" "runs_end ms rest"
    by auto
  have c: "filter isElement (childNodes w) = map piece_field ms"
    by (simp add: w filter_isElement_pieces isElement_def)
  have "list_all (\<lambda>p. case p of (before, spaces, count) \<Rightarrow>
          5 \<le> count
        \<and> getAttribute (piece_field p) ''data-underscores'' = Some (String_nat count)
        \<and> map_of (style (piece_field p)) ''width'' = Some (String_nat count @ js ''ch'')) ms"
    using r(2)
    by (auto simp: list_all_iff piece_ok_def piece_field_def createInputFor_width
        createInputFor_underscores max_def)
  with r c show ?thesis by blast
qed

theorem field_width_is_run_length_witness:
  "wrapper_for (js ''Name: _____ Date: ______'') =
     Some (Element ''SPAN'' [WRAPPER_CLASS] [(''data-original'', js ''Name: _____ Date: ______'')] []
       [Text (js ''Name''), Text (js '': ''), createInputFor 5,
        Text (js '' Date''), Text (js '': ''), createInputFor 6])
   \<and> (\<exists>ms rest.
      js ''Name: _____ Date: ______'' = concat (map piece_text ms) @ rest
    \<and> [createInputFor 5, createInputFor 6] = map piece_field ms
    \<and> list_all (\<lambda>p. case p of (before, spaces, count) \<Rightarrow>
          5 \<le> count
        \<and> getAttribute (piece_field p) ''data-underscores'' = Some (String_nat count)
        \<and> map_of (style (piece_field p)) ''width'' = Some (String_nat count @ js ''ch'')) ms)"
proof -
  from field_width_is_run_length [OF example_wrapper]
  obtain ms rest where
    "js ''Name: _____ Date: ______'' = concat (map piece_text ms) @ rest"
    "filter isElement [Text (js ''Name''), Text (js '': ''), createInputFor 5,
        Text (js '' Date''), Text (js '': ''), createInputFor 6] = map piece_field ms"
    "list_all (\<lambda>p. case p of (before, spaces, count) \<Rightarrow>
          5 \<le> count
        \<and> getAttribute (piece_field p) ''data-underscores'' = Some (String_nat count)
        \<and> map_of (style (piece_field p)) ''width'' = Some (String_nat count @ js ''ch'')) ms"
    by auto
  then show ?thesis
    using example_wrapper by (auto simp: isElement_def createInputFor_def)
qed

end
